theory Spec2Isabelle
  imports Complex_Main "HOL-Library.List_Lexorder" "HOL-Library.Product_Lexorder"
begin

section \<open>Python primitives used by the simulation core\<close>

text \<open>
  Python floats are modelled as exact reals, Python ints as \<open>int\<close>. \<open>int(x)\<close> on a float
  truncates toward zero; \<open>xs[:k]\<close> and \<open>xs[-k:]\<close> follow Python's slice rules, negative
  bounds included; \<open>random.randint(a, b)\<close> raises \<open>ValueError\<close> on an empty range.
\<close>

datatype py_error = ValueError | KeyError

definition py_int :: "real \<Rightarrow> int" where
  "py_int x = (if 0 \<le> x then \<lfloor>x\<rfloor> else \<lceil>x\<rceil>)"

definition py_round2 :: "real \<Rightarrow> real" where
  \<comment> \<open>\<open>round(x, 2)\<close>: nearest multiple of 0.01, ties to the even one.\<close>
  "py_round2 x =
     (let y = x * 100; f = \<lfloor>y\<rfloor> in
      real_of_int (if y - real_of_int f < 1 / 2 then f
                   else if 1 / 2 < y - real_of_int f then f + 1
                   else if even f then f else f + 1) / 100)"

definition py_take :: "int \<Rightarrow> 'a list \<Rightarrow> 'a list" where
  \<comment> \<open>\<open>xs[:k]\<close>\<close>
  "py_take k xs = (if 0 \<le> k then take (nat k) xs else take (length xs - nat (- k)) xs)"

definition py_last_n :: "int \<Rightarrow> 'a list \<Rightarrow> 'a list" where
  \<comment> \<open>\<open>xs[-k:]\<close>: for \<open>k = 0\<close> this is \<open>xs[0:]\<close>, the whole list.\<close>
  "py_last_n k xs =
     (if 0 < k then drop (length xs - nat k) xs
      else if k = 0 then xs
      else drop (nat (- k)) xs)"

definition randint :: "int \<Rightarrow> int \<Rightarrow> nat \<Rightarrow> py_error + int" where
  \<comment> \<open>\<open>random.randint(a, b)\<close>, the generator's raw draw \<open>u\<close> reduced into \<open>[a, b]\<close>.\<close>
  "randint a b u = (if b < a then Inl ValueError else Inr (a + int (u mod nat (b - a + 1))))"

definition rand_between :: "int \<Rightarrow> int \<Rightarrow> nat \<Rightarrow> int" where
  \<comment> \<open>\<open>randint\<close> at a call site whose bounds are literals with \<open>a \<le> b\<close>.\<close>
  "rand_between a b u = a + int (u mod nat (b - a + 1))"

fun shuffle_from :: "nat \<Rightarrow> (nat \<Rightarrow> nat) \<Rightarrow> 'a list \<Rightarrow> 'a list" where
  \<comment> \<open>\<open>random.shuffle\<close>: for \<open>i\<close> from \<open>len - 1\<close> down to 1, swap \<open>x[i]\<close> with \<open>x[j]\<close>,
      \<open>j\<close> drawn below \<open>i + 1\<close>.\<close>
  "shuffle_from 0 draw xs = xs"
| "shuffle_from (Suc i) draw xs =
     (let j = draw (Suc i) mod (Suc (Suc i)) in
      shuffle_from i draw (xs[Suc i := xs ! j, j := xs ! Suc i]))"

definition shuffle :: "(nat \<Rightarrow> nat) \<Rightarrow> 'a list \<Rightarrow> 'a list" where
  "shuffle draw xs = shuffle_from (length xs - 1) draw xs"

section \<open>Environment: world graph, disaster state and resource ledger\<close>

text \<open>
  \<open>environment.py\<close>. Of a node, the coordinates and the infrastructure score are left out:
  no operation modelled here reads them. The phase strings \<open>'idle'\<close>, \<open>'response'\<close>,
  \<open>'rebuild'\<close> and \<open>'recovered'\<close> are the constructors of \<open>phase\<close>.
\<close>

datatype phase = Idle | Response | Rebuild | Recovered

record node =
  node_id :: nat
  node_name :: string
  population :: int
  node_type :: string
  vulnerability :: "(string \<times> real) list"

record edge =
  e_from :: nat
  e_to :: nat
  distance :: real
  e_type :: string
  blocked :: bool

definition mk_node :: "nat \<Rightarrow> string \<Rightarrow> int \<Rightarrow> string \<Rightarrow> real \<Rightarrow> real \<Rightarrow> real \<Rightarrow> node" where
  "mk_node i nm pop ty ve vf vw =
     \<lparr>node_id = i, node_name = nm, population = pop, node_type = ty,
      vulnerability = [(''earthquake'', ve), (''flood'', vf), (''wildfire'', vw)]\<rparr>"

definition mk_edge :: "nat \<Rightarrow> nat \<Rightarrow> real \<Rightarrow> string \<Rightarrow> edge" where
  "mk_edge f t d ty = \<lparr>e_from = f, e_to = t, distance = d, e_type = ty, blocked = False\<rparr>"

definition env_nodes :: "node list" where
  "env_nodes =
    [mk_node 0 ''Karachi Central'' 3822325 ''district_center'' 1.2 0.9 0.5,
     mk_node 1 ''Karachi East'' 3921742 ''district_center'' 1.1 1.0 0.6,
     mk_node 2 ''Karachi West'' 2679380 ''district_center'' 1.0 1.1 0.7,
     mk_node 3 ''Karachi South'' 2329764 ''district_center'' 1.1 1.2 0.5,
     mk_node 4 ''Malir'' 2432248 ''district_center'' 0.9 1.3 0.8,
     mk_node 5 ''Korangi'' 3128971 ''district_center'' 1.0 1.1 0.6,
     mk_node 6 ''Kemari'' 2068451 ''district_center'' 1.0 1.4 0.7,
     mk_node 7 ''Saddar Residential'' 500000 ''residential'' 1.2 0.8 0.6,
     mk_node 8 ''Lyari Residential'' 600000 ''residential'' 1.3 1.0 0.7,
     mk_node 9 ''Clifton Residential'' 400000 ''residential'' 1.0 1.4 0.5,
     mk_node 10 ''Gulshan-e-Iqbal Residential'' 800000 ''residential'' 1.1 0.9 0.6,
     mk_node 11 ''Orangi Town Residential'' 1000000 ''residential'' 1.3 1.2 0.8,
     mk_node 12 ''North Nazimabad Residential'' 700000 ''residential'' 1.1 1.0 0.7,
     mk_node 13 ''Saddar Market'' 100000 ''commercial'' 1.2 0.7 0.4,
     mk_node 14 ''Burns Road Offices'' 50000 ''commercial'' 1.1 0.8 0.5,
     mk_node 15 ''Tariq Road Market'' 150000 ''commercial'' 1.0 0.9 0.6,
     mk_node 16 ''Gulshan-e-Iqbal Commercial'' 200000 ''commercial'' 1.1 0.8 0.5,
     mk_node 17 ''Korangi Industrial Area'' 300000 ''industrial'' 1.0 1.1 0.8,
     mk_node 18 ''Jinnah International Airport'' 0 ''landmark'' 1.0 0.8 0.4,
     mk_node 19 ''Port of Karachi'' 0 ''landmark'' 1.1 1.5 0.6,
     mk_node 20 ''Jinnah Postgraduate Medical Centre'' 0 ''public_service'' 1.0 0.7 0.3,
     mk_node 21 ''Civil Hospital Karachi'' 0 ''public_service'' 1.1 0.8 0.4,
     mk_node 22 ''Aga Khan Hospital'' 0 ''public_service'' 0.9 0.6 0.2,
     mk_node 23 ''Fire Station Clifton'' 0 ''public_service'' 1.0 1.0 0.5,
     mk_node 24 ''Fire Station Korangi'' 0 ''public_service'' 1.1 1.1 0.6,
     mk_node 25 ''Fire Station Malir'' 0 ''public_service'' 0.9 1.2 0.7,
     mk_node 26 ''Provincial Disaster Management Authority (PDMA)'' 0 ''public_service'' 0.8 0.7 0.3]"

definition env_edges :: "edge list" where
  "env_edges =
    [mk_edge 0 1 5.0 ''highway'', mk_edge 0 2 7.0 ''highway'', mk_edge 0 3 4.0 ''road'',
     mk_edge 1 4 15.0 ''highway'', mk_edge 1 5 6.0 ''road'', mk_edge 2 6 5.0 ''road'',
     mk_edge 3 6 8.0 ''highway'', mk_edge 4 5 20.0 ''highway'',
     mk_edge 0 7 1.0 ''road'', mk_edge 0 8 2.0 ''road'', mk_edge 3 9 1.0 ''road'',
     mk_edge 1 10 3.0 ''road'', mk_edge 0 11 10.0 ''highway'', mk_edge 1 12 5.0 ''road'',
     mk_edge 0 13 0.5 ''road'', mk_edge 0 14 1.0 ''road'', mk_edge 0 15 2.0 ''road'',
     mk_edge 1 16 2.0 ''road'', mk_edge 5 17 1.0 ''road'',
     mk_edge 0 18 12.0 ''highway'', mk_edge 1 18 8.0 ''road'', mk_edge 6 19 2.0 ''road'',
     mk_edge 0 20 0.5 ''road'', mk_edge 0 21 1.0 ''road'', mk_edge 1 22 1.0 ''road'',
     mk_edge 3 23 0.5 ''road'', mk_edge 5 24 0.5 ''road'', mk_edge 4 25 1.0 ''road'',
     mk_edge 0 26 1.0 ''road'',
     mk_edge 7 13 0.5 ''road'', mk_edge 9 23 0.5 ''road'', mk_edge 10 16 1.0 ''road'']"

record stats =
  total_victims_initial :: int
  stat_victims_saved :: int
  disasters_completed :: int
  total_time_steps :: int

record env =
  time_step :: int
  scenario :: "string option"
  disaster :: bool
  phase :: phase
  victims :: int
  victims_saved :: int
  seismic_level :: real
  aftershock :: bool
  roads_blocked :: bool
  resources :: "string \<rightharpoonup> int"
  initial_resources :: "string \<rightharpoonup> int"
  resources_used :: "string \<rightharpoonup> int"
  rebuild_progress :: real
  cooldown_counter :: int
  env_stats :: stats
  edges :: "edge list"
  affected_nodes :: "nat list"
  affected_edges :: "nat list"

text \<open>The entries of \<open>self.params\<close>; no operation writes them.\<close>

definition seismic_threshold :: real where "seismic_threshold = 0.5"
definition aftershock_factor :: real where "aftershock_factor = 0.3"
definition road_block_chance :: real where "road_block_chance = 0.4"
definition rebuild_required :: real where "rebuild_required = 100"
definition rebuild_factor_per_crew :: real where "rebuild_factor_per_crew = 2.0"

definition default_resources :: "string \<rightharpoonup> int" where
  "default_resources =
     [''ambulances'' \<mapsto> 5, ''drones'' \<mapsto> 3, ''medical_kits'' \<mapsto> 40,
      ''repair_crews'' \<mapsto> 2, ''food_packs'' \<mapsto> 50]"

definition zero_counters :: "(string \<rightharpoonup> int) \<Rightarrow> (string \<rightharpoonup> int)" where
  \<comment> \<open>\<open>{k: 0 for k in resources}\<close>\<close>
  "zero_counters res = (\<lambda>k. case res k of None \<Rightarrow> None | Some _ \<Rightarrow> Some 0)"

definition get_count :: "(string \<rightharpoonup> int) \<Rightarrow> string \<Rightarrow> int" where
  \<comment> \<open>\<open>d.get(k, 0)\<close>\<close>
  "get_count d k = (case d k of None \<Rightarrow> 0 | Some v \<Rightarrow> v)"

definition zero_stats :: stats where
  "zero_stats = \<lparr>total_victims_initial = 0, stat_victims_saved = 0,
                  disasters_completed = 0, total_time_steps = 0\<rparr>"

definition init_env :: env where
  \<comment> \<open>\<open>Environment.__init__\<close>\<close>
  "init_env =
     \<lparr>time_step = 0, scenario = None, disaster = False, phase = Idle, victims = 0,
      victims_saved = 0, seismic_level = 0, aftershock = False, roads_blocked = False,
      resources = default_resources, initial_resources = default_resources,
      resources_used = zero_counters default_resources, rebuild_progress = 0,
      cooldown_counter = 0, env_stats = zero_stats, edges = env_edges,
      affected_nodes = [], affected_edges = []\<rparr>"

definition save_victims :: "int \<Rightarrow> env \<Rightarrow> int \<times> env" where
  "save_victims count s =
     (let actual_saved = min count (victims s) in
      (actual_saved,
       s\<lparr>victims := max 0 (victims s - actual_saved),
         victims_saved := victims_saved s + actual_saved\<rparr>))"

definition use_resource :: "string \<Rightarrow> int \<Rightarrow> env \<Rightarrow> int \<times> env" where
  "use_resource resource_name amount s =
     (case resources s resource_name of
        None \<Rightarrow> (0, s)
      | Some available \<Rightarrow>
          (let actual_used = min amount available in
           (actual_used,
            s\<lparr>resources := (resources s)(resource_name \<mapsto> available - actual_used),
              resources_used := (resources_used s)
                 (resource_name \<mapsto> get_count (resources_used s) resource_name + actual_used)\<rparr>)))"

definition unblock_all :: "edge list \<Rightarrow> edge list" where
  \<comment> \<open>\<open>for edge in self.edges: edge['blocked'] = False\<close>\<close>
  "unblock_all es = map (\<lambda>e. e\<lparr>blocked := False\<rparr>) es"

definition reset :: "env \<Rightarrow> env" where
  "reset s =
     s\<lparr>time_step := 0, scenario := None, disaster := False, phase := Idle, victims := 0,
       victims_saved := 0, seismic_level := 0, aftershock := False, roads_blocked := False,
       rebuild_progress := 0, cooldown_counter := 0,
       resources := default_resources, initial_resources := default_resources,
       resources_used := zero_counters default_resources,
       affected_nodes := [], affected_edges := [],
       edges := unblock_all (edges s), env_stats := zero_stats\<rparr>"

subsection \<open>Random draws\<close>

text \<open>
  Every call of the \<open>random\<close> module is a value supplied from outside: one record of
  draws per operation, a draw inside a loop being indexed by the loop's position (or key).
  \<open>random.random()\<close> is a real, \<open>randint\<close>, \<open>choice\<close> and \<open>shuffle\<close> reduce natural
  numbers.
\<close>

record trigger_rnd =
  node_draw :: "nat \<Rightarrow> real"
  edge_draw :: "nat \<Rightarrow> real"
  res_draw :: "string \<Rightarrow> nat"

record update_rnd =
  aftershock_draw :: real
  block_draw :: real
  decay_draw :: real
  new_victims_chance :: real
  new_victims_draw :: nat
  factor_draw :: real
  shuffle_draw :: "nat \<Rightarrow> nat"
  restore_draw :: "string \<Rightarrow> real"
  cooldown_draw :: nat
  scenario_draw :: nat
  intensity_draw :: real
  retrigger :: trigger_rnd

subsection \<open>trigger\_disaster\<close>

definition enumerate_list :: "'a list \<Rightarrow> (nat \<times> 'a) list" where
  "enumerate_list xs = zip [0..<length xs] xs"

definition select_affected_nodes :: "trigger_rnd \<Rightarrow> string \<Rightarrow> nat list" where
  "select_affected_nodes rnd sc =
     (if sc = ''earthquake'' then [0..<length env_nodes]
      else if sc = ''flood'' then
        map (\<lambda>(i, n). node_id n)
          (filter (\<lambda>(i, n). node_id n \<in> set [3, 4, 6, 19, 9, 8, 11] \<or> node_draw rnd i < 0.3)
             (enumerate_list env_nodes))
      else if sc = ''wildfire'' then
        map (\<lambda>(i, n). node_id n)
          (filter (\<lambda>(i, n). node_id n \<in> set [2, 4, 6, 17] \<or> node_draw rnd i < 0.2)
             (enumerate_list env_nodes))
      else
        map (\<lambda>(i, n). node_id n)
          (filter (\<lambda>(i, n). node_draw rnd i < 0.7) (enumerate_list env_nodes)))"

definition edge_touches :: "nat list \<Rightarrow> edge \<Rightarrow> bool" where
  "edge_touches affected e \<longleftrightarrow> e_from e \<in> set affected \<or> e_to e \<in> set affected"

definition select_affected_edges :: "nat list \<Rightarrow> edge list \<Rightarrow> nat list" where
  "select_affected_edges affected es =
     map fst (filter (\<lambda>(idx, e). edge_touches affected e) (enumerate_list es))"

definition block_edges :: "trigger_rnd \<Rightarrow> real \<Rightarrow> nat list \<Rightarrow> edge list \<Rightarrow> edge list" where
  "block_edges rnd level affected es =
     map (\<lambda>(idx, e).
            if edge_touches affected e
               \<and> edge_draw rnd idx < (if e_type e = ''road'' then 0.2 else 0.1) * level
            then e\<lparr>blocked := True\<rparr> else e)
         (enumerate_list es)"

definition vulnerability_of :: "node \<Rightarrow> string \<Rightarrow> real" where
  \<comment> \<open>\<open>node['vulnerability'].get(scenario, 1.0)\<close>\<close>
  "vulnerability_of n sc = (case map_of (vulnerability n) sc of None \<Rightarrow> 1 | Some v \<Rightarrow> v)"

definition base_victims :: "string \<Rightarrow> real \<Rightarrow> nat \<Rightarrow> int" where
  "base_victims sc level nid =
     (let n = env_nodes ! nid in
      py_int (real_of_int (population n) * 0.01 * level * vulnerability_of n sc))"

definition count_victims :: "string \<Rightarrow> real \<Rightarrow> nat list \<Rightarrow> int" where
  "count_victims sc level affected = max 10 (sum_list (map (base_victims sc level) affected))"

fun override_resources :: "(string \<times> int) list \<Rightarrow> (string \<rightharpoonup> int) \<Rightarrow> (string \<rightharpoonup> int)" where
  "override_resources [] new_res = new_res"
| "override_resources ((k, v) # kvs) new_res =
     override_resources kvs (if new_res k \<noteq> None then new_res(k \<mapsto> max 0 v) else new_res)"

definition random_resources :: "trigger_rnd \<Rightarrow> string \<Rightarrow> real \<Rightarrow> (string \<rightharpoonup> int) \<Rightarrow> (string \<rightharpoonup> int)" where
  "random_resources rnd sc level res =
     (if sc = ''earthquake'' then
        res(''ambulances'' \<mapsto> rand_between 3 8 (res_draw rnd ''ambulances''),
            ''drones'' \<mapsto> rand_between 1 4 (res_draw rnd ''drones''),
            ''medical_kits'' \<mapsto> rand_between 20 80 (res_draw rnd ''medical_kits''),
            ''repair_crews'' \<mapsto> rand_between 1 4 (res_draw rnd ''repair_crews''),
            ''food_packs'' \<mapsto> rand_between 30 100 (res_draw rnd ''food_packs''))
      else if sc = ''flood'' then
        res(''ambulances'' \<mapsto> rand_between 2 6 (res_draw rnd ''ambulances''),
            ''drones'' \<mapsto> rand_between 2 6 (res_draw rnd ''drones''),
            ''medical_kits'' \<mapsto> rand_between 15 60 (res_draw rnd ''medical_kits''),
            ''repair_crews'' \<mapsto> rand_between 2 6 (res_draw rnd ''repair_crews''),
            ''food_packs'' \<mapsto> rand_between 40 120 (res_draw rnd ''food_packs''))
      else if sc = ''wildfire'' then
        res(''ambulances'' \<mapsto> rand_between 1 4 (res_draw rnd ''ambulances''),
            ''drones'' \<mapsto> rand_between 3 8 (res_draw rnd ''drones''),
            ''medical_kits'' \<mapsto> rand_between 10 40 (res_draw rnd ''medical_kits''),
            ''repair_crews'' \<mapsto> rand_between 3 8 (res_draw rnd ''repair_crews''),
            ''food_packs'' \<mapsto> rand_between 20 80 (res_draw rnd ''food_packs''))
      else
        (\<lambda>k. case res k of
                None \<Rightarrow> None
              | Some _ \<Rightarrow>
                  Some (max 0 (py_int (real_of_int (rand_between 1 10 (res_draw rnd k)) * (1 + level))))))"

definition trigger_disaster ::
  "trigger_rnd \<Rightarrow> string \<Rightarrow> real \<Rightarrow> (string \<times> int) list option \<Rightarrow> env \<Rightarrow> env" where
  "trigger_disaster rnd sc intensity res_arg s =
     (let level = max 0 (min 1 intensity);
          affected = select_affected_nodes rnd sc;
          es = block_edges rnd level affected (edges s);
          v = count_victims sc level affected;
          res = (case res_arg of
                   Some (kv # kvs) \<Rightarrow> override_resources (kv # kvs) (resources s)
                 | _ \<Rightarrow> random_resources rnd sc level (resources s))
      in s\<lparr>scenario := Some sc, disaster := True, phase := Response, time_step := 0,
           victims_saved := 0, seismic_level := level,
           affected_nodes := affected,
           affected_edges := select_affected_edges affected (edges s),
           edges := es,
           roads_blocked := list_ex blocked es,
           victims := v,
           env_stats := (env_stats s)\<lparr>total_victims_initial := v\<rparr>,
           resources := res, initial_resources := res,
           resources_used := zero_counters res\<rparr>)"

subsection \<open>update\<close>

definition update_response :: "update_rnd \<Rightarrow> env \<Rightarrow> py_error + env" where
  "update_response rnd s =
     (let shock = (aftershock_draw rnd < aftershock_factor * (0.5 + seismic_level s));
          block_chance = road_block_chance + 0.2 * seismic_level s + (if shock then 0.2 else 0);
          level = max 0 (seismic_level s - decay_draw rnd * 0.1);
          s1 = s\<lparr>aftershock := shock, roads_blocked := (block_draw rnd < block_chance),
                 seismic_level := level\<rparr>;
          grown = (if shock \<and> new_victims_chance rnd < 0.2
                   then (case randint 1 (py_int (10 * (0.5 + level))) (new_victims_draw rnd) of
                           Inl e \<Rightarrow> Inl e
                         | Inr new_victims \<Rightarrow> Inr (s1\<lparr>victims := victims s1 + new_victims\<rparr>))
                   else Inr s1)
      in case grown of
           Inl e \<Rightarrow> Inl e
         | Inr s2 \<Rightarrow>
             Inr (if victims s2 \<le> 0 \<and> \<not> shock
                  then s2\<lparr>phase := Rebuild, rebuild_progress := 0,
                          env_stats := (env_stats s2)\<lparr>stat_victims_saved := victims_saved s2\<rparr>\<rparr>
                  else s2))"

definition unblock_edges :: "nat list \<Rightarrow> edge list \<Rightarrow> edge list" where
  \<comment> \<open>\<open>for idx in ...: self.edges[idx]['blocked'] = False\<close>\<close>
  "unblock_edges idxs es =
     map (\<lambda>(idx, e). if idx \<in> set idxs then e\<lparr>blocked := False\<rparr> else e) (enumerate_list es)"

definition restore_resources :: "update_rnd \<Rightarrow> (string \<rightharpoonup> int) \<Rightarrow> (string \<rightharpoonup> int)" where
  "restore_resources rnd initial =
     (\<lambda>k. case initial k of
             None \<Rightarrow> None
           | Some v \<Rightarrow> Some (max 0 (py_int (real_of_int v * (0.9 + restore_draw rnd k * 0.2)))))"

definition update_rebuild :: "update_rnd \<Rightarrow> env \<Rightarrow> env" where
  "update_rebuild rnd s =
     (let crews = max 0 (get_count (resources s) ''repair_crews'');
          drones = max 0 (get_count (resources s) ''drones'');
          increment = (real_of_int crews * rebuild_factor_per_crew + real_of_int drones * 0.15)
                        * (0.8 + factor_draw rnd * 0.4);
          progress = min 100 (rebuild_progress s + increment);
          unblock_count = \<lfloor>increment / 5\<rfloor>;
          blocked_edges = map fst (filter (\<lambda>(idx, e). blocked e) (enumerate_list (edges s)));
          es = unblock_edges (py_take unblock_count (shuffle (shuffle_draw rnd) blocked_edges))
                 (edges s);
          consumed = min (get_count (resources s) ''repair_crews'') (max 0 \<lfloor>increment / 3\<rfloor>);
          s1 = s\<lparr>rebuild_progress := progress, edges := es, roads_blocked := list_ex blocked es,
                 resources := (resources s)(''repair_crews'' \<mapsto>
                     max 0 (get_count (resources s) ''repair_crews'' - consumed))\<rparr>
      in if rebuild_required \<le> progress
         then s1\<lparr>phase := Recovered, disaster := False, seismic_level := 0,
                 roads_blocked := False, victims := 0, edges := unblock_all es,
                 affected_nodes := [], affected_edges := [],
                 env_stats := (env_stats s1)\<lparr>disasters_completed :=
                                 disasters_completed (env_stats s1) + 1\<rparr>,
                 resources := restore_resources rnd (initial_resources s1),
                 cooldown_counter := rand_between 2 6 (cooldown_draw rnd)\<rparr>
         else s1)"

definition update_recovered :: "update_rnd \<Rightarrow> env \<Rightarrow> env" where
  "update_recovered rnd s =
     (if 0 < cooldown_counter s then s\<lparr>cooldown_counter := cooldown_counter s - 1\<rparr>
      else
        trigger_disaster (retrigger rnd)
          ([''earthquake'', ''flood'', ''wildfire''] ! (scenario_draw rnd mod 3))
          (py_round2 (intensity_draw rnd * 0.9 + 0.1)) None s)"

definition enforce_non_negative :: "env \<Rightarrow> env" where
  "enforce_non_negative s =
     s\<lparr>victims := max 0 (victims s),
       resources := (\<lambda>k. case resources s k of None \<Rightarrow> None | Some v \<Rightarrow> Some (max 0 v))\<rparr>"

definition update :: "update_rnd \<Rightarrow> env \<Rightarrow> py_error + env" where
  "update rnd s =
     (if phase s = Idle then Inr s
      else
        (let s1 = s\<lparr>time_step := time_step s + 1,
                    env_stats := (env_stats s)\<lparr>total_time_steps :=
                                    total_time_steps (env_stats s) + 1\<rparr>\<rparr>
         in case (case phase s1 of
                    Response \<Rightarrow> update_response rnd s1
                  | Rebuild \<Rightarrow> Inr (update_rebuild rnd s1)
                  | Recovered \<Rightarrow> Inr (update_recovered rnd s1)
                  | Idle \<Rightarrow> Inr s1) of
              Inl e \<Rightarrow> Inl e
            | Inr s2 \<Rightarrow> Inr (enforce_non_negative s2)))"

section \<open>MessageBus\<close>

text \<open>
  \<open>message_bus.py\<close>. The bus is generic in the payload it carries; a payload of \<open>None\<close>
  is stored as the empty payload by \<open>send\<close>, so the model's caller passes the stored
  value. The timestamp is an argument. \<open>history\<close> is the \<open>deque(maxlen=max_history)\<close>.
\<close>

record 'p message =
  msg_id :: int
  msg_type :: string
  sender :: string
  payload :: 'p
  priority :: int
  ts :: real

record 'p bus =
  messages :: "'p message list"
  history :: "'p message list"
  max_history :: nat
  message_id_counter :: int
  consumer_offsets :: "string \<rightharpoonup> int"

definition new_bus :: "nat \<Rightarrow> 'p bus" where
  "new_bus maxlen = \<lparr>messages = [], history = [], max_history = maxlen,
                      message_id_counter = 0, consumer_offsets = Map.empty\<rparr>"

definition deque_append :: "nat \<Rightarrow> 'a list \<Rightarrow> 'a \<Rightarrow> 'a list" where
  "deque_append maxlen d x = drop (length (d @ [x]) - maxlen) (d @ [x])"

definition send :: "string \<Rightarrow> string \<Rightarrow> 'p \<Rightarrow> int \<Rightarrow> real \<Rightarrow> 'p bus \<Rightarrow> int \<times> 'p bus" where
  "send sndr mtype pl prio t b =
     (let c = message_id_counter b + 1;
          msg = \<lparr>msg_id = c, msg_type = mtype, sender = sndr, payload = pl,
                 priority = prio, ts = t\<rparr>
      in (c, b\<lparr>message_id_counter := c, messages := messages b @ [msg],
               history := deque_append (max_history b) (history b) msg\<rparr>))"

definition read_all :: "string \<Rightarrow> bool \<Rightarrow> 'p bus \<Rightarrow> 'p message list \<times> 'p bus" where
  "read_all consumer_id clear b =
     (if clear then (messages b, b\<lparr>messages := []\<rparr>)
      else
        (let last_offset = (case consumer_offsets b consumer_id of None \<Rightarrow> 0 | Some off \<Rightarrow> off);
             new_messages = filter (\<lambda>m. last_offset < msg_id m) (messages b)
         in (new_messages,
             if messages b \<noteq> []
             then b\<lparr>consumer_offsets :=
                      (consumer_offsets b)(consumer_id \<mapsto> msg_id (last (messages b)))\<rparr>
             else b)))"

definition read_recent :: "int \<Rightarrow> 'p bus \<Rightarrow> 'p message list" where
  "read_recent count b = py_last_n count (history b)"

definition get_history :: "int \<Rightarrow> 'p bus \<Rightarrow> 'p message list" where
  "get_history since_id b = filter (\<lambda>m. since_id < msg_id m) (history b)"

definition clear_old_messages :: "int \<Rightarrow> 'p bus \<Rightarrow> 'p bus" where
  "clear_old_messages keep_recent b =
     (if keep_recent < int (length (messages b))
      then b\<lparr>messages := py_last_n keep_recent (messages b)\<rparr>
      else b)"

definition bus_reset :: "'p bus \<Rightarrow> 'p bus" where
  "bus_reset b = b\<lparr>messages := [], history := [], message_id_counter := 0,
                   consumer_offsets := Map.empty\<rparr>"

subsection \<open>A consumer's stream of reads\<close>

text \<open>
  A run of the bus is a list of calls. \<open>reads c\<close> concatenates what \<open>read_all(c)\<close>
  returned during the run, \<open>sent\<close> lists the messages created by the run's \<open>send\<close> calls,
  \<open>unread c\<close> is what a \<open>read_all(c)\<close> would return now.
\<close>

datatype 'p bus_call =
    Send string string 'p int real
  | ReadAll string
  | ClearOld int

fun bus_step :: "'p bus_call \<Rightarrow> 'p bus \<Rightarrow> 'p bus" where
  "bus_step (Send sndr mtype pl prio t) b = snd (send sndr mtype pl prio t b)"
| "bus_step (ReadAll c) b = snd (read_all c False b)"
| "bus_step (ClearOld k) b = clear_old_messages k b"

fun bus_run :: "'p bus_call list \<Rightarrow> 'p bus \<Rightarrow> 'p bus" where
  "bus_run [] b = b"
| "bus_run (call # calls) b = bus_run calls (bus_step call b)"

fun reads :: "string \<Rightarrow> 'p bus_call list \<Rightarrow> 'p bus \<Rightarrow> 'p message list" where
  "reads c [] b = []"
| "reads c (call # calls) b =
     (if call = ReadAll c then fst (read_all c False b) else []) @ reads c calls (bus_step call b)"

fun sent :: "'p bus_call list \<Rightarrow> 'p bus \<Rightarrow> 'p message list" where
  "sent [] b = []"
| "sent (Send sndr mtype pl prio t # calls) b =
     last (messages (snd (send sndr mtype pl prio t b)))
       # sent calls (bus_step (Send sndr mtype pl prio t) b)"
| "sent (call # calls) b = sent calls (bus_step call b)"

definition unread :: "string \<Rightarrow> 'p bus \<Rightarrow> 'p message list" where
  "unread c b = fst (read_all c False b)"

fun keeps_unread :: "string \<Rightarrow> 'p bus_call list \<Rightarrow> 'p bus \<Rightarrow> bool" where
  \<comment> \<open>every compaction of the run leaves in the active list what \<open>c\<close> has not read yet\<close>
  "keeps_unread c [] b = True"
| "keeps_unread c (ClearOld k # calls) b =
     (unread c (clear_old_messages k b) = unread c b
      \<and> keeps_unread c calls (clear_old_messages k b))"
| "keeps_unread c (call # calls) b = keeps_unread c calls (bus_step call b)"

definition bus_ok :: "'p bus \<Rightarrow> bool" where
  \<comment> \<open>ids in the active list increase strictly and none exceeds the counter\<close>
  "bus_ok b \<longleftrightarrow>
     sorted_wrt (<) (map msg_id (messages b))
     \<and> list_all (\<lambda>m. msg_id m \<le> message_id_counter b) (messages b)"

section \<open>Agents\<close>

text \<open>
  \<open>agents/*.py\<close>. An observation is the environment snapshot of \<open>get_observation\<close>; the
  recent bus messages that \<open>sense\<close> adds to it are read by no \<open>decide\<close> and are left out,
  as are the human-readable message texts of the payloads. An intent dictionary
  \<open>{type, payload, priority}\<close> is the record \<open>intent\<close>, the payload dictionaries are the
  constructors of \<open>payload\<close>. \<open>clock\<close> gives the wall-clock time stamped on the message
  that receives a given id.
\<close>

record critical_node =
  c_id :: nat
  c_name :: string
  c_type :: string
  priority_score :: real
  c_population :: int

record route =
  target_id :: nat
  target_name :: string
  path :: "nat list"
  path_names :: "string list"
  status :: string
  route_priority :: real

record plan =
  routes :: "route list"
  critical_nodes :: "critical_node list"
  command_center :: nat
  total_targets :: int

datatype payload =
    Alert string real bool int int
      \<comment> \<open>severity, seismic\_level, aftershock, time\_step, affected\_areas\<close>
  | Recon "nat list" int int int
      \<comment> \<open>nodes\_scanned, drones\_active, remaining\_areas, time\_step\<close>
  | ReconComplete int int int
      \<comment> \<open>total\_scanned, time\_step, recon\_duration\<close>
  | PlanMsg int plan int bool
      \<comment> \<open>time\_step, plan, victims\_remaining, roads\_blocked\<close>
  | Rescue "(string \<times> int) list" int int "(string \<times> int) list" int "int option"
      \<comment> \<open>allocation, expected\_victims\_helped, remaining\_victims, active\_resources,
          time\_step, actual\_victims\_saved (absent until \<open>act\<close> writes it)\<close>
  | Status int int
      \<comment> \<open>victims\_remaining, time\_step\<close>
  | RepairStatus real int int int int
      \<comment> \<open>rebuild\_progress, available\_crews, available\_drones, estimated\_steps\_remaining,
          time\_step\<close>
  | RepairRequest int int int
      \<comment> \<open>current\_crews, needed, time\_step\<close>
  | Milestone int real int
      \<comment> \<open>the milestone reached, progress, time\_step\<close>
  | RepairAlloc int int int
      \<comment> \<open>added\_crews, food\_used, time\_step\<close>
  | RepairBlocked int int int int
      \<comment> \<open>needed, available\_food, required\_food, time\_step\<close>

record intent =
  i_type :: string
  i_payload :: payload
  i_priority :: int

type_synonym clock = "int \<Rightarrow> real"

definition bus_send :: "string \<Rightarrow> clock \<Rightarrow> string \<Rightarrow> payload \<Rightarrow> int \<Rightarrow> payload bus \<Rightarrow> payload bus" where
  \<comment> \<open>\<open>bus.send(self.name, msg_type, payload, priority)\<close>, the returned id dropped\<close>
  "bus_send name clk mtype pl prio b =
     snd (send name mtype pl prio (clk (message_id_counter b + 1)) b)"

fun send_all :: "string \<Rightarrow> clock \<Rightarrow> intent list \<Rightarrow> payload bus \<Rightarrow> payload bus" where
  \<comment> \<open>the loop of \<open>Agent.act\<close>\<close>
  "send_all name clk [] b = b"
| "send_all name clk (d # ds) b =
     send_all name clk ds (bus_send name clk (i_type d) (i_payload d) (i_priority d) b)"

subsection \<open>ReflexAgent\<close>

record reflex_state =
  last_alert_step :: int

definition reflex_init :: reflex_state where
  "reflex_init = \<lparr>last_alert_step = - 1\<rparr>"

definition reflex_decide :: "env \<Rightarrow> reflex_state \<Rightarrow> intent list \<times> reflex_state" where
  "reflex_decide obs st =
     (if phase obs \<noteq> Response then ([], st)
      else if time_step obs = last_alert_step st then ([], st)
      else if disaster obs then
        (let level = seismic_level obs;
             severity0 = (if seismic_threshold \<le> level
                          then (if 0.8 \<le> level then ''critical'' else ''high'')
                          else ''medium'');
             severity = (if aftershock obs then ''critical'' else severity0);
             prio = (if severity \<in> set [''critical'', ''high''] then 10 else 5)
         in ([\<lparr>i_type = ''alert'',
               i_payload = Alert severity level (aftershock obs) (time_step obs)
                              (int (length (affected_nodes obs))),
               i_priority = prio\<rparr>],
             st\<lparr>last_alert_step := time_step obs\<rparr>))
      else ([], st))"

definition reflex_act ::
  "clock \<Rightarrow> env \<Rightarrow> payload bus \<Rightarrow> reflex_state \<Rightarrow> payload bus \<times> reflex_state" where
  "reflex_act clk s b st =
     (let (decisions, st1) = reflex_decide s st
      in (send_all ''ReflexAgent'' clk decisions b, st1))"

subsection \<open>DroneReconAgent\<close>

text \<open>
  The scanned set is kept as a duplicate-free list. Python leaves the iteration order of
  \<open>list(unscanned)\<close> open; the model lists the unscanned ids in ascending order.
\<close>

record drone_state =
  scanned_nodes :: "nat list"
  recon_complete :: bool
  recon_start_step :: int

definition drone_init :: drone_state where
  "drone_init = \<lparr>scanned_nodes = [], recon_complete = False, recon_start_step = - 1\<rparr>"

definition drone_decide :: "env \<Rightarrow> drone_state \<Rightarrow> intent list \<times> drone_state" where
  "drone_decide obs st =
     (if phase obs \<noteq> Response
      then ([], st\<lparr>scanned_nodes := [], recon_complete := False, recon_start_step := - 1\<rparr>)
      else
        (let st1 = (if recon_start_step st < 0 then st\<lparr>recon_start_step := time_step obs\<rparr>
                    else st);
             drones = get_count (resources obs) ''drones''
         in if drones \<le> 0 then ([], st1)
            else
              (let unscanned = sort (remdups (filter (\<lambda>n. n \<notin> set (scanned_nodes st1))
                                                     (affected_nodes obs)))
               in if unscanned = [] \<and> affected_nodes obs \<noteq> []
                  then (if \<not> recon_complete st1
                        then ([\<lparr>i_type = ''recon_complete'',
                                i_payload = ReconComplete (int (length (scanned_nodes st1)))
                                   (time_step obs) (time_step obs - recon_start_step st1),
                                i_priority = 8\<rparr>],
                              st1\<lparr>recon_complete := True\<rparr>)
                        else ([], st1))
                  else
                    (let nodes_to_scan = py_take (drones * 2) unscanned
                     in if nodes_to_scan \<noteq> []
                        then ([\<lparr>i_type = ''recon'',
                                i_payload = Recon nodes_to_scan drones
                                   (int (length unscanned) - int (length nodes_to_scan))
                                   (time_step obs),
                                i_priority = 7\<rparr>], st1)
                        else ([], st1)))))"

fun drone_record :: "intent list \<Rightarrow> nat list \<Rightarrow> nat list" where
  \<comment> \<open>the \<open>self._scanned_nodes.add(node)\<close> of \<open>act\<close>\<close>
  "drone_record [] scanned = scanned"
| "drone_record (d # ds) scanned =
     drone_record ds
       (case i_payload d of
          Recon nodes _ _ _ \<Rightarrow>
            (if i_type d = ''recon'' then fold List.insert nodes scanned else scanned)
        | _ \<Rightarrow> scanned)"

definition drone_act ::
  "clock \<Rightarrow> env \<Rightarrow> payload bus \<Rightarrow> drone_state \<Rightarrow> payload bus \<times> drone_state" where
  "drone_act clk s b st =
     (let (decisions, st1) = drone_decide s st
      in (send_all ''DroneReconAgent'' clk decisions b,
          st1\<lparr>scanned_nodes := drone_record decisions (scanned_nodes st1)\<rparr>))"

subsection \<open>UtilityAgent\<close>

definition AMBULANCE_CAPACITY :: int where "AMBULANCE_CAPACITY = 500"
definition DRONE_CAPACITY :: int where "DRONE_CAPACITY = 200"
definition MEDICAL_KIT_CAPACITY :: int where "MEDICAL_KIT_CAPACITY = 50"
definition FOOD_PACK_CAPACITY :: int where "FOOD_PACK_CAPACITY = 30"

record utility_state =
  deployed_resources :: "(string \<times> int) list"

definition alloc_get :: "(string \<times> int) list \<Rightarrow> string \<Rightarrow> int" where
  \<comment> \<open>\<open>alloc.get(k, 0)\<close>\<close>
  "alloc_get d k = (case map_of d k of None \<Rightarrow> 0 | Some v \<Rightarrow> v)"

definition utility_decide :: "env \<Rightarrow> utility_state \<Rightarrow> intent list \<times> utility_state" where
  "utility_decide obs st =
     (if phase obs \<noteq> Response then ([], st\<lparr>deployed_resources := []\<rparr>)
      else if victims obs \<le> 0 then ([], st)
      else
        (let ambulances = get_count (resources obs) ''ambulances'';
             drones = get_count (resources obs) ''drones'';
             medical_kits = get_count (resources obs) ''medical_kits'';
             food_packs = get_count (resources obs) ''food_packs'';
             potential_saved = ambulances * AMBULANCE_CAPACITY + drones * DRONE_CAPACITY
                + min medical_kits 5 * MEDICAL_KIT_CAPACITY + min food_packs 3 * FOOD_PACK_CAPACITY
         in if 0 < potential_saved
            then
              (let kits_to_use = min medical_kits (min 5
                      ((victims obs + MEDICAL_KIT_CAPACITY - 1) div MEDICAL_KIT_CAPACITY));
                   food_to_use = min food_packs (min 3
                      ((victims obs + FOOD_PACK_CAPACITY - 1) div FOOD_PACK_CAPACITY));
                   alloc = [(''ambulances'', 0), (''drones'', 0),
                            (''medical_kits'', kits_to_use), (''food_packs'', food_to_use)]
               in ([\<lparr>i_type = ''rescue'',
                     i_payload = Rescue alloc (min potential_saved (victims obs))
                        (max 0 (victims obs - potential_saved))
                        [(''ambulances'', ambulances), (''drones'', drones),
                         (''medical_kits'', medical_kits), (''food_packs'', food_packs)]
                        (time_step obs) None,
                     i_priority = 5\<rparr>], st))
            else ([\<lparr>i_type = ''status'', i_payload = Status (victims obs) (time_step obs),
                    i_priority = 1\<rparr>], st)))"

fun consume_alloc :: "(string \<times> int) list \<Rightarrow> env \<Rightarrow> env" where
  \<comment> \<open>\<open>for resource_name, amount in alloc.items(): if amount > 0: env.use_resource(...)\<close>\<close>
  "consume_alloc [] s = s"
| "consume_alloc ((resource_name, amount) # rest) s =
     consume_alloc rest (if 0 < amount then snd (use_resource resource_name amount s) else s)"

definition payload_allocation :: "payload \<Rightarrow> (string \<times> int) list" where
  \<comment> \<open>\<open>payload.get("allocation", {})\<close>\<close>
  "payload_allocation pl = (case pl of Rescue alloc _ _ _ _ _ \<Rightarrow> alloc | _ \<Rightarrow> [])"

definition payload_active :: "payload \<Rightarrow> (string \<times> int) list" where
  \<comment> \<open>\<open>payload.get("active_resources", {})\<close>\<close>
  "payload_active pl = (case pl of Rescue _ _ _ active _ _ \<Rightarrow> active | _ \<Rightarrow> [])"

definition set_actual_saved :: "int \<Rightarrow> payload \<Rightarrow> payload" where
  \<comment> \<open>\<open>payload["actual_victims_saved"] = actual_saved\<close>\<close>
  "set_actual_saved v pl =
     (case pl of Rescue alloc ex rem active t _ \<Rightarrow> Rescue alloc ex rem active t (Some v)
      | _ \<Rightarrow> pl)"

definition utility_rescue :: "payload \<Rightarrow> env \<Rightarrow> payload \<times> env" where
  \<comment> \<open>the body of \<open>act\<close> for one \<open>rescue\<close> decision, before the message is sent\<close>
  "utility_rescue pl s =
     (let alloc = payload_allocation pl;
          active = payload_active pl;
          s1 = consume_alloc alloc s;
          victims_this_step =
              alloc_get active ''ambulances'' * AMBULANCE_CAPACITY
            + alloc_get active ''drones'' * DRONE_CAPACITY
            + alloc_get alloc ''medical_kits'' * MEDICAL_KIT_CAPACITY
            + alloc_get alloc ''food_packs'' * FOOD_PACK_CAPACITY
      in if 0 < victims_this_step
         then (let (actual_saved, s2) = save_victims victims_this_step s1
               in (set_actual_saved actual_saved pl, s2))
         else (pl, s1))"

fun utility_execute ::
  "clock \<Rightarrow> intent list \<Rightarrow> env \<times> payload bus \<Rightarrow> env \<times> payload bus" where
  "utility_execute clk [] sb = sb"
| "utility_execute clk (d # ds) (s, b) =
     (let (pl, s1) = (if i_type d = ''rescue'' then utility_rescue (i_payload d) s
                      else (i_payload d, s))
      in utility_execute clk ds
           (s1, bus_send ''UtilityAgent'' clk (i_type d) pl (i_priority d) b))"

definition utility_act ::
  "clock \<Rightarrow> env \<Rightarrow> payload bus \<Rightarrow> utility_state \<Rightarrow> env \<times> payload bus \<times> utility_state" where
  "utility_act clk s b st =
     (let (decisions, st1) = utility_decide s st;
          (s1, b1) = utility_execute clk decisions (s, b)
      in (s1, b1, st1))"

subsection \<open>RebuildAgent\<close>

definition FOOD_COST_PER_CREW :: int where "FOOD_COST_PER_CREW = 5"
definition MIN_CREWS_FOR_REBUILD :: int where "MIN_CREWS_FOR_REBUILD = 2"

fun first_milestone :: "real \<Rightarrow> int list \<Rightarrow> int option" where
  \<comment> \<open>the \<open>for milestone in milestones: if ...: append; break\<close> loop\<close>
  "first_milestone progress [] = None"
| "first_milestone progress (milestone # rest) =
     (if real_of_int milestone \<le> progress \<and> progress < real_of_int milestone + 5
      then Some milestone else first_milestone progress rest)"

definition rebuild_decide :: "env \<Rightarrow> intent list" where
  "rebuild_decide obs =
     (if phase obs \<noteq> Rebuild then []
      else
        (let progress = rebuild_progress obs;
             crews = get_count (resources obs) ''repair_crews'';
             drones = get_count (resources obs) ''drones'';
             estimated_steps =
               (if 0 < crews
                then py_int (max 0 (100 - progress)
                       / max 0.1 (real_of_int crews * rebuild_factor_per_crew
                                  + real_of_int drones * 0.15))
                else - 1)
         in [\<lparr>i_type = ''repair_status'',
               i_payload = RepairStatus (py_round2 progress) crews drones estimated_steps
                              (time_step obs),
               i_priority = 6\<rparr>]
            @ (if crews < MIN_CREWS_FOR_REBUILD
               then [\<lparr>i_type = ''repair_request'',
                       i_payload = RepairRequest crews (MIN_CREWS_FOR_REBUILD - crews)
                                      (time_step obs),
                       i_priority = 8\<rparr>]
               else [])
            @ (case first_milestone progress [25, 50, 75, 90] of
                 Some milestone \<Rightarrow>
                   [\<lparr>i_type = ''milestone'',
                     i_payload = Milestone milestone (py_round2 progress) (time_step obs),
                     i_priority = 4\<rparr>]
               | None \<Rightarrow> [])))"

definition payload_needed :: "payload \<Rightarrow> int" where
  \<comment> \<open>\<open>int(payload.get('needed', 1))\<close>\<close>
  "payload_needed pl =
     (case pl of RepairRequest _ needed _ \<Rightarrow> needed | RepairBlocked needed _ _ _ \<Rightarrow> needed
      | _ \<Rightarrow> 1)"

definition payload_time_step :: "payload \<Rightarrow> int" where
  \<comment> \<open>\<open>payload.get('time_step')\<close>\<close>
  "payload_time_step pl =
     (case pl of RepairRequest _ _ t \<Rightarrow> t | RepairStatus _ _ _ _ t \<Rightarrow> t
      | Milestone _ _ t \<Rightarrow> t | RepairAlloc _ _ t \<Rightarrow> t | RepairBlocked _ _ _ t \<Rightarrow> t
      | Alert _ _ _ t _ \<Rightarrow> t | Recon _ _ _ t \<Rightarrow> t | ReconComplete _ t _ \<Rightarrow> t
      | PlanMsg t _ _ _ \<Rightarrow> t | Rescue _ _ _ _ t _ \<Rightarrow> t | Status _ t \<Rightarrow> t)"

definition repair_blocked ::
  "clock \<Rightarrow> intent \<Rightarrow> int \<Rightarrow> env \<Rightarrow> payload bus \<Rightarrow> env \<times> payload bus" where
  "repair_blocked clk d available_food s b =
     (let needed = payload_needed (i_payload d)
      in (s, bus_send ''RebuildAgent'' clk ''repair_blocked''
                (RepairBlocked needed available_food (needed * FOOD_COST_PER_CREW)
                   (payload_time_step (i_payload d)))
                (max 1 (i_priority d - 2)) b))"

definition rebuild_request ::
  "clock \<Rightarrow> intent \<Rightarrow> env \<Rightarrow> payload bus \<Rightarrow> env \<times> payload bus" where
  \<comment> \<open>the \<open>repair_request\<close> branch of \<open>act\<close>\<close>
  "rebuild_request clk d s b =
     (let needed = payload_needed (i_payload d);
          available_food = get_count (resources s) ''food_packs'';
          max_from_food = available_food div FOOD_COST_PER_CREW
      in if 0 < max_from_food
         then
           (let add = min needed max_from_food;
                (food_used, s1) = use_resource ''food_packs'' (add * FOOD_COST_PER_CREW) s
            in if 0 < food_used
               then
                 (let crews_added = food_used div FOOD_COST_PER_CREW;
                      s2 = s1\<lparr>resources := (resources s1)(''repair_crews'' \<mapsto>
                                get_count (resources s1) ''repair_crews'' + crews_added)\<rparr>
                  in (s2, bus_send ''RebuildAgent'' clk ''repair_alloc''
                            (RepairAlloc crews_added food_used (payload_time_step (i_payload d)))
                            (i_priority d) b))
               else repair_blocked clk d available_food s1 b)
         else repair_blocked clk d available_food s b)"

fun rebuild_execute ::
  "clock \<Rightarrow> intent list \<Rightarrow> env \<times> payload bus \<Rightarrow> env \<times> payload bus" where
  "rebuild_execute clk [] sb = sb"
| "rebuild_execute clk (d # ds) (s, b) =
     rebuild_execute clk ds
       (if i_type d = ''repair_request'' then rebuild_request clk d s b
        else (s, bus_send ''RebuildAgent'' clk (i_type d) (i_payload d) (i_priority d) b))"

definition rebuild_act :: "clock \<Rightarrow> env \<Rightarrow> payload bus \<Rightarrow> env \<times> payload bus" where
  "rebuild_act clk s b = rebuild_execute clk (rebuild_decide s) (s, b)"

subsection \<open>GoalBasedAgent\<close>

text \<open>
  The adjacency dictionary \<open>{node_id: [(neighbor, distance, blocked), ...]}\<close> is an
  association list. The heap holds tuples \<open>(dist, node, path)\<close>; \<open>heappop\<close> returns the
  least tuple in Python's tuple order, which is the lexicographic order of the triple (with
  lists compared lexicographically), so the heap is a list and \<open>heappop\<close> takes its minimum.
\<close>

type_synonym adjacency = "(nat \<times> (nat \<times> real \<times> bool) list) list"
type_synonym pq_entry = "real \<times> nat \<times> nat list"

definition adj_append :: "nat \<Rightarrow> nat \<times> real \<times> bool \<Rightarrow> adjacency \<Rightarrow> py_error + adjacency" where
  \<comment> \<open>\<open>adj[k].append(x)\<close>; \<open>KeyError\<close> when \<open>k\<close> is no key\<close>
  "adj_append k x adj =
     (if k \<in> fst ` set adj
      then Inr (map (\<lambda>(k', l). if k' = k then (k', l @ [x]) else (k', l)) adj)
      else Inl KeyError)"

fun add_edges :: "edge list \<Rightarrow> adjacency \<Rightarrow> py_error + adjacency" where
  "add_edges [] adj = Inr adj"
| "add_edges (e # es) adj =
     (case adj_append (e_from e) (e_to e, distance e, blocked e) adj of
        Inl err \<Rightarrow> Inl err
      | Inr adj1 \<Rightarrow>
          (case adj_append (e_to e) (e_from e, distance e, blocked e) adj1 of
             Inl err \<Rightarrow> Inl err
           | Inr adj2 \<Rightarrow> add_edges es adj2))"

definition build_adjacency_list :: "node list \<Rightarrow> edge list \<Rightarrow> py_error + adjacency" where
  "build_adjacency_list ns es = add_edges es (map (\<lambda>i. (i, [])) (remdups (map node_id ns)))"

definition neighbours :: "adjacency \<Rightarrow> nat \<Rightarrow> (nat \<times> real \<times> bool) list" where
  \<comment> \<open>\<open>adj.get(node, [])\<close>\<close>
  "neighbours adj node = (case map_of adj node of None \<Rightarrow> [] | Some l \<Rightarrow> l)"

definition pushes :: "adjacency \<Rightarrow> bool \<Rightarrow> nat set \<Rightarrow> pq_entry \<Rightarrow> pq_entry list" where
  \<comment> \<open>the entries pushed while the neighbours of a popped node are scanned\<close>
  "pushes adj avoid_blocked visited e =
     (case e of (d, node, p) \<Rightarrow>
        map (\<lambda>(neighbor, edge_dist, blk). (d + edge_dist, neighbor, p @ [neighbor]))
          (filter (\<lambda>(neighbor, edge_dist, blk).
                     neighbor \<notin> visited \<and> \<not> (avoid_blocked \<and> blk))
             (neighbours adj node)))"

definition adj_targets :: "adjacency \<Rightarrow> nat set" where
  "adj_targets adj = (\<Union>(k, l) \<in> set adj. fst ` set l)"

definition pq_nodes :: "pq_entry list \<Rightarrow> nat set" where
  "pq_nodes pq = (\<lambda>e. fst (snd e)) ` set pq"

definition frontier_size :: "adjacency \<Rightarrow> pq_entry list \<Rightarrow> nat set \<Rightarrow> nat" where
  \<comment> \<open>the nodes that can still be visited: the measure of the search loop\<close>
  "frontier_size adj pq visited = card ((adj_targets adj \<union> pq_nodes pq) - visited)"

lemma finite_frontier: "finite (adj_targets adj \<union> pq_nodes pq)"
  by (auto simp: adj_targets_def pq_nodes_def)

lemma neighbours_targets:
  assumes "(nb, w, b) \<in> set (neighbours adj node)"
  shows "nb \<in> adj_targets adj"
proof -
  from assms obtain l where l: "map_of adj node = Some l" "(nb, w, b) \<in> set l"
    by (cases "map_of adj node") (auto simp: neighbours_def)
  then have "(node, l) \<in> set adj" by (simp add: map_of_SomeD)
  moreover have "nb \<in> fst ` set l" using l(2) by force
  ultimately show ?thesis unfolding adj_targets_def by blast
qed

lemma pushes_nodes: "pq_nodes (pushes adj av vis e) \<subseteq> adj_targets adj"
  by (auto simp: pushes_def pq_nodes_def split: prod.splits dest: neighbours_targets)

lemma pq_nodes_append: "pq_nodes (xs @ ys) = pq_nodes xs \<union> pq_nodes ys"
  by (auto simp: pq_nodes_def)

lemma pq_nodes_remove1: "pq_nodes (remove1 e pq) \<subseteq> pq_nodes pq"
  unfolding pq_nodes_def by (rule image_mono) (rule set_remove1_subset)

lemma frontier_pop_visited:
  "frontier_size adj (remove1 e pq) visited \<le> frontier_size adj pq visited"
  unfolding frontier_size_def
proof (rule card_mono)
  show "finite ((adj_targets adj \<union> pq_nodes pq) - visited)"
    using finite_frontier by auto
  show "(adj_targets adj \<union> pq_nodes (remove1 e pq)) - visited
          \<subseteq> (adj_targets adj \<union> pq_nodes pq) - visited"
    using pq_nodes_remove1[of e pq] by auto
qed

lemma frontier_pop_new:
  assumes "e \<in> set pq" and "fst (snd e) \<notin> visited"
  shows "frontier_size adj (remove1 e pq @ pushes adj av vis e) (insert (fst (snd e)) visited)
          < frontier_size adj pq visited"
  unfolding frontier_size_def
proof (rule psubset_card_mono)
  show "finite ((adj_targets adj \<union> pq_nodes pq) - visited)"
    using finite_frontier by auto
  have "fst (snd e) \<in> pq_nodes pq"
    using assms(1) by (auto simp: pq_nodes_def)
  then show "(adj_targets adj \<union> pq_nodes (remove1 e pq @ pushes adj av vis e))
                 - insert (fst (snd e)) visited
             \<subset> (adj_targets adj \<union> pq_nodes pq) - visited"
    using assms(2) pushes_nodes[of adj av vis e] pq_nodes_remove1[of e pq]
    by (auto simp: pq_nodes_append)
qed

function dijkstra_loop ::
  "adjacency \<Rightarrow> nat \<Rightarrow> bool \<Rightarrow> pq_entry list \<Rightarrow> nat set \<Rightarrow> nat list option" where
  "dijkstra_loop adj target avoid_blocked pq visited =
     (if pq = [] then None
      else
        (let e = Min (set pq); pq1 = remove1 e pq; node = fst (snd e) in
         if node \<in> visited then dijkstra_loop adj target avoid_blocked pq1 visited
         else if node = target then Some (snd (snd e))
         else dijkstra_loop adj target avoid_blocked
                (pq1 @ pushes adj avoid_blocked (insert node visited) e) (insert node visited)))"
  by pat_completeness auto
termination
proof (relation "measures [\<lambda>(adj, target, av, pq, visited). frontier_size adj pq visited,
                           \<lambda>(adj, target, av, pq, visited). length pq]", goal_cases)
  case 1
  show ?case by simp
next
  case (2 adj target av pq visited e pq1 node)
  then have "e \<in> set pq" by simp
  then have "length pq1 < length pq"
    using 2 by (simp add: length_remove1 length_pos_if_in_set)
  then show ?case
    using frontier_pop_visited[of adj e pq visited] 2 by auto
next
  case (3 adj target av pq visited e pq1 node)
  then have "e \<in> set pq" by simp
  then show ?case
    using frontier_pop_new[of e pq visited adj av "insert node visited"] 3 by auto
qed

text \<open>The loop's equation is unfolded by hand: as a rewrite rule it would not terminate.\<close>

declare dijkstra_loop.simps [simp del]

definition find_path_dijkstra :: "adjacency \<Rightarrow> nat \<Rightarrow> nat \<Rightarrow> bool \<Rightarrow> nat list option" where
  "find_path_dijkstra adj start target avoid_blocked =
     (if start = target then Some [start]
      else dijkstra_loop adj target avoid_blocked [(0, start, [start])] {})"

definition scenario_vulnerability :: "node \<Rightarrow> string option \<Rightarrow> real" where
  \<comment> \<open>\<open>node.get('vulnerability', {}).get(scenario, 1.0)\<close>, the scenario \<open>None\<close> while idle\<close>
  "scenario_vulnerability n sc =
     (case sc of None \<Rightarrow> 1 | Some name \<Rightarrow> vulnerability_of n name)"

definition critical_of :: "string option \<Rightarrow> node \<Rightarrow> critical_node" where
  "critical_of sc n =
     (let score = scenario_vulnerability n sc * (real_of_int (population n) / 100000)
      in \<lparr>c_id = node_id n, c_name = node_name n, c_type = node_type n,
          priority_score = (if node_type n \<in> set [''residential'', ''public_service'']
                            then score * 1.5 else score),
          c_population = population n\<rparr>)"

definition find_critical_nodes :: "node list \<Rightarrow> nat list \<Rightarrow> string option \<Rightarrow> critical_node list" where
  \<comment> \<open>\<open>sort(key=score, reverse=True)\<close> is stable, as \<open>sort_key\<close> on the negated score is\<close>
  "find_critical_nodes ns affected sc =
     take 5 (sort_key (\<lambda>c. - priority_score c)
               (map (critical_of sc) (filter (\<lambda>n. node_id n \<in> set affected) ns)))"

definition plan_route :: "node list \<Rightarrow> adjacency \<Rightarrow> nat \<Rightarrow> critical_node \<Rightarrow> route list" where
  \<comment> \<open>one round of the loop over the critical nodes: the route appended, if any\<close>
  "plan_route ns adj cc target =
     (let (found, route_status) =
            (case find_path_dijkstra adj cc (c_id target) True of
               None \<Rightarrow> (find_path_dijkstra adj cc (c_id target) False, ''blocked_route'')
             | Some p \<Rightarrow> (Some p, ''clear''))
      in case found of
           None \<Rightarrow> []
         | Some p \<Rightarrow>
             (if p \<noteq> []
              then [\<lparr>target_id = c_id target, target_name = c_name target, path = p,
                     path_names = map (\<lambda>nid. node_name (ns ! nid))
                                      (filter (\<lambda>nid. nid < length ns) p),
                     status = route_status, route_priority = priority_score target\<rparr>]
              else []))"

definition plan_rescue_routes ::
  "node list \<Rightarrow> edge list \<Rightarrow> nat list \<Rightarrow> string option \<Rightarrow> py_error + plan" where
  "plan_rescue_routes ns es affected sc =
     (case build_adjacency_list ns es of
        Inl err \<Rightarrow> Inl err
      | Inr adj \<Rightarrow>
          (let critical = find_critical_nodes ns affected sc;
               command = 26;
               rs = concat (map (plan_route ns adj command) critical)
           in Inr \<lparr>routes = rs, critical_nodes = critical, command_center = command,
                   total_targets = int (length rs)\<rparr>))"

record goal_state =
  current_plan :: "plan option"
  last_plan_step :: int

definition goal_init :: goal_state where
  "goal_init = \<lparr>current_plan = None, last_plan_step = - 1\<rparr>"

definition goal_decide :: "env \<Rightarrow> goal_state \<Rightarrow> py_error + (intent list \<times> goal_state)" where
  "goal_decide obs st =
     (if phase obs \<noteq> Response then Inr ([], st)
      else if time_step obs - last_plan_step st < 3 \<and> current_plan st \<noteq> None then Inr ([], st)
      else if victims obs \<le> 0 then Inr ([], st)
      else
        (case plan_rescue_routes env_nodes (edges obs) (affected_nodes obs) (scenario obs) of
           Inl err \<Rightarrow> Inl err
         | Inr pl \<Rightarrow>
             Inr ([\<lparr>i_type = ''plan'',
                    i_payload = PlanMsg (time_step obs) pl (victims obs) (roads_blocked obs),
                    i_priority = (if roads_blocked obs then 8 else 6)\<rparr>],
                  st\<lparr>current_plan := Some pl, last_plan_step := time_step obs\<rparr>)))"

definition goal_act ::
  "clock \<Rightarrow> env \<Rightarrow> payload bus \<Rightarrow> goal_state \<Rightarrow> py_error + (payload bus \<times> goal_state)" where
  "goal_act clk s b st =
     (case goal_decide s st of
        Inl err \<Rightarrow> Inl err
      | Inr (decisions, st1) \<Rightarrow> Inr (send_all ''GoalAgent'' clk decisions b, st1))"

section \<open>Reachable environments and concrete runs\<close>

text \<open>
  The states an environment can be in: the initial one and those produced by the public
  operations, called with any arguments and any random draws, and by the two agents whose
  \<open>act\<close> writes to the environment. (The acts of the other three agents only read it.)
\<close>

inductive reachable :: "env \<Rightarrow> bool" where
  r_init: "reachable init_env"
| r_trigger: "reachable s \<Longrightarrow> reachable (trigger_disaster rnd sc intensity res_arg s)"
| r_update: "reachable s \<Longrightarrow> update urnd s = Inr s' \<Longrightarrow> reachable s'"
| r_use: "reachable s \<Longrightarrow> reachable (snd (use_resource name amount s))"
| r_save: "reachable s \<Longrightarrow> reachable (snd (save_victims count s))"
| r_reset: "reachable s \<Longrightarrow> reachable (reset s)"
| r_utility: "reachable s \<Longrightarrow> reachable (fst (utility_act clk s b ust))"
| r_rebuild: "reachable s \<Longrightarrow> reachable (fst (rebuild_act clk s b))"

definition nonneg_map :: "(string \<rightharpoonup> int) \<Rightarrow> bool" where
  "nonneg_map m \<longleftrightarrow> (\<forall>k. 0 \<le> get_count m k)"

definition env_inv :: "env \<Rightarrow> bool" where
  "env_inv s \<longleftrightarrow> 0 \<le> victims s \<and> nonneg_map (resources s)
      \<and> 0 \<le> seismic_level s \<and> 0 \<le> cooldown_counter s"

text \<open>
  The same runs with \<open>use_resource\<close> called only with amounts that are not negative, as
  the two agents call it.
\<close>

inductive reachable_careful :: "env \<Rightarrow> bool" where
  c_init: "reachable_careful init_env"
| c_trigger: "reachable_careful s \<Longrightarrow>
              reachable_careful (trigger_disaster rnd sc intensity res_arg s)"
| c_update: "reachable_careful s \<Longrightarrow> update urnd s = Inr s' \<Longrightarrow> reachable_careful s'"
| c_use: "reachable_careful s \<Longrightarrow> 0 \<le> amount \<Longrightarrow>
          reachable_careful (snd (use_resource name amount s))"
| c_save: "reachable_careful s \<Longrightarrow> reachable_careful (snd (save_victims count s))"
| c_reset: "reachable_careful s \<Longrightarrow> reachable_careful (reset s)"
| c_utility: "reachable_careful s \<Longrightarrow> reachable_careful (fst (utility_act clk s b ust))"
| c_rebuild: "reachable_careful s \<Longrightarrow> reachable_careful (fst (rebuild_act clk s b))"




definition step_env :: "update_rnd \<Rightarrow> env \<Rightarrow> env" where
  \<comment> \<open>one \<open>update()\<close>, the state kept where it raises\<close>
  "step_env rnd s = (case update rnd s of Inr s' \<Rightarrow> s' | Inl _ \<Rightarrow> s)"

definition calm_trigger :: trigger_rnd where
  "calm_trigger = \<lparr>node_draw = (\<lambda>_. 1 / 2), edge_draw = (\<lambda>_. 1 / 2), res_draw = (\<lambda>_. 0)\<rparr>"

definition quiet_update :: update_rnd where
  "quiet_update =
     \<lparr>aftershock_draw = 9 / 10, block_draw = 9 / 10, decay_draw = 1 / 2,
      new_victims_chance = 9 / 10, new_victims_draw = 0, factor_draw = 1 / 2,
      shuffle_draw = (\<lambda>_. 0), restore_draw = (\<lambda>_. 1 / 2), cooldown_draw = 0,
      scenario_draw = 0, intensity_draw = 1 / 2, retrigger = calm_trigger\<rparr>"

definition struck :: env where
  \<comment> \<open>a full-intensity earthquake on the fresh environment\<close>
  "struck = trigger_disaster calm_trigger ''earthquake'' 1 None init_env"

definition rescued :: env where
  \<comment> \<open>... all of whose victims have been saved\<close>
  "rescued = snd (save_victims (victims struck) struck)"

definition rebuilding :: env where
  \<comment> \<open>... and which a tick without aftershock has moved to the rebuild phase\<close>
  "rebuilding = step_env quiet_update rescued"

section \<open>Runs of the bus used below\<close>

definition cursor :: "string \<Rightarrow> 'p bus \<Rightarrow> int" where
  \<comment> \<open>\<open>self._consumer_offsets.get(consumer_id, 0)\<close>\<close>
  "cursor c b = (case consumer_offsets b c of None \<Rightarrow> 0 | Some off \<Rightarrow> off)"

definition bus_inv :: "string \<Rightarrow> 'p bus \<Rightarrow> bool" where
  "bus_inv c b \<longleftrightarrow> bus_ok b \<and> cursor c b \<le> message_id_counter b"

definition first_read :: "string \<Rightarrow> 'p bus_call list \<Rightarrow> nat \<Rightarrow> 'p bus" where
  \<comment> \<open>the bus right after a \<open>read_all(c)\<close> that follows the calls \<open>pre\<close> on a new bus\<close>
  "first_read c pre maxlen = snd (read_all c False (bus_run pre (new_bus maxlen)))"

definition kept_calls :: "unit bus_call list" where
  \<comment> \<open>a compaction between two reads that drops nothing unread\<close>
  "kept_calls =
     [Send ''A'' ''x'' () 1 0, Send ''B'' ''y'' () 1 0, ClearOld 2, ReadAll ''c1'',
      Send ''A'' ''z'' () 1 0, ReadAll ''c1'']"

definition overflow_calls :: "unit bus_call list" where
  \<comment> \<open>101 sends, the orchestrator's \<open>clear_old_messages(100)\<close>, then the consumer's read\<close>
  "overflow_calls = replicate 101 (Send ''A'' ''x'' () 1 0) @ [ClearOld 100, ReadAll ''c1'']"

section \<open>Quantities of the agents' decisions, named\<close>

definition payload_actual_saved :: "payload \<Rightarrow> int option" where
  \<comment> \<open>\<open>payload.get("actual_victims_saved")\<close>\<close>
  "payload_actual_saved pl = (case pl of Rescue _ _ _ _ _ actual \<Rightarrow> actual | _ \<Rightarrow> None)"

definition potential_saved :: "env \<Rightarrow> int" where
  "potential_saved obs =
     get_count (resources obs) ''ambulances'' * AMBULANCE_CAPACITY
   + get_count (resources obs) ''drones'' * DRONE_CAPACITY
   + min (get_count (resources obs) ''medical_kits'') 5 * MEDICAL_KIT_CAPACITY
   + min (get_count (resources obs) ''food_packs'') 3 * FOOD_PACK_CAPACITY"

definition kits_to_use :: "env \<Rightarrow> int" where
  "kits_to_use obs = min (get_count (resources obs) ''medical_kits'')
       (min 5 ((victims obs + MEDICAL_KIT_CAPACITY - 1) div MEDICAL_KIT_CAPACITY))"

definition food_to_use :: "env \<Rightarrow> int" where
  "food_to_use obs = min (get_count (resources obs) ''food_packs'')
       (min 3 ((victims obs + FOOD_PACK_CAPACITY - 1) div FOOD_PACK_CAPACITY))"

definition throughput :: "env \<Rightarrow> int" where
  \<comment> \<open>\<open>victims_this_step\<close> of \<open>UtilityAgent.act\<close>\<close>
  "throughput obs =
     get_count (resources obs) ''ambulances'' * AMBULANCE_CAPACITY
   + get_count (resources obs) ''drones'' * DRONE_CAPACITY
   + kits_to_use obs * MEDICAL_KIT_CAPACITY + food_to_use obs * FOOD_PACK_CAPACITY"

definition crew_shortfall :: "env \<Rightarrow> int" where
  \<comment> \<open>\<open>needed\<close> of the \<open>repair_request\<close>\<close>
  "crew_shortfall s = MIN_CREWS_FOR_REBUILD - get_count (resources s) ''repair_crews''"

definition crews_from_food :: "env \<Rightarrow> int" where
  \<comment> \<open>\<open>add = min(needed, max_from_food)\<close>\<close>
  "crews_from_food s =
     min (crew_shortfall s) (get_count (resources s) ''food_packs'' div FOOD_COST_PER_CREW)"

definition milestone_intents :: "env \<Rightarrow> intent list" where
  "milestone_intents obs =
     (case first_milestone (rebuild_progress obs) [25, 50, 75, 90] of
        Some milestone \<Rightarrow>
          [\<lparr>i_type = ''milestone'',
            i_payload = Milestone milestone (py_round2 (rebuild_progress obs)) (time_step obs),
            i_priority = 4\<rparr>]
      | None \<Rightarrow> [])"

definition idle_clock :: clock where
  "idle_clock = (\<lambda>_. 0)"

definition empty_bus :: "payload bus" where
  "empty_bus = new_bus 500"

section \<open>A rebuild phase that stays in one progress band\<close>

definition rebuild_increment :: "update_rnd \<Rightarrow> env \<Rightarrow> real" where
  \<comment> \<open>\<open>increment\<close> of the rebuild branch of \<open>update\<close>\<close>
  "rebuild_increment rnd s =
     (real_of_int (max 0 (get_count (resources s) ''repair_crews'')) * rebuild_factor_per_crew
      + real_of_int (max 0 (get_count (resources s) ''drones'')) * 0.15)
       * (0.8 + factor_draw rnd * 0.4)"

definition struck_crews :: env where
  \<comment> \<open>an earthquake triggered with 11 repair crews and no drones\<close>
  "struck_crews = trigger_disaster calm_trigger ''earthquake'' 1
                    (Some [(''repair_crews'', 11), (''drones'', 0)]) init_env"

definition rescued_crews :: env where
  "rescued_crews = snd (save_victims (victims struck_crews) struck_crews)"

definition rebuilding_crews :: env where
  "rebuilding_crews = step_env quiet_update rescued_crews"

definition first_tick :: env where
  \<comment> \<open>the first rebuild tick brings progress to 25 and leaves 3 crews\<close>
  "first_tick = step_env (quiet_update\<lparr>factor_draw := 37 / 44\<rparr>) rebuilding_crews"

definition second_tick :: env where
  \<comment> \<open>the next one adds 4.8\<close>
  "second_tick = step_env (quiet_update\<lparr>factor_draw := 0\<rparr>) first_tick"

definition milestones_of :: "intent list \<Rightarrow> payload list" where
  "milestones_of ds = map i_payload (filter (\<lambda>d. i_type d = ''milestone'') ds)"

section \<open>Routes in a graph snapshot\<close>

text \<open>
  What a shortest path is. A route in a snapshot of the edge list starts at \<open>start\<close> and
  follows edges in either direction, adding their distances; with \<open>avoid_blocked\<close> it
  uses no blocked edge. \<open>walk\<close> is the same notion on the adjacency structure the agent
  builds, \<open>loop_inv\<close> is the invariant of its search loop.
\<close>

definition connects :: "edge \<Rightarrow> nat \<Rightarrow> nat \<Rightarrow> bool" where
  "connects e u v \<longleftrightarrow> (e_from e = u \<and> e_to e = v) \<or> (e_to e = u \<and> e_from e = v)"

inductive route_in :: "edge list \<Rightarrow> bool \<Rightarrow> nat \<Rightarrow> nat list \<Rightarrow> real \<Rightarrow> bool"
  for es :: "edge list" and avoid_blocked :: bool and start :: nat where
  route_start: "route_in es avoid_blocked start [start] 0"
| route_step: "route_in es avoid_blocked start p d \<Longrightarrow> e \<in> set es \<Longrightarrow>
               connects e (last p) v \<Longrightarrow> \<not> (avoid_blocked \<and> blocked e) \<Longrightarrow>
               route_in es avoid_blocked start (p @ [v]) (d + distance e)"

definition shortest_route :: "edge list \<Rightarrow> bool \<Rightarrow> nat \<Rightarrow> nat \<Rightarrow> nat list \<Rightarrow> bool" where
  "shortest_route es av start target p \<longleftrightarrow>
     (\<exists>d. route_in es av start p d \<and> last p = target
          \<and> (\<forall>p' d'. route_in es av start p' d' \<and> last p' = target \<longrightarrow> d \<le> d'))"

definition no_route :: "edge list \<Rightarrow> bool \<Rightarrow> nat \<Rightarrow> nat \<Rightarrow> bool" where
  "no_route es av start target \<longleftrightarrow>
     (\<forall>p d. route_in es av start p d \<longrightarrow> last p \<noteq> target)"

inductive walk :: "adjacency \<Rightarrow> bool \<Rightarrow> nat \<Rightarrow> nat list \<Rightarrow> real \<Rightarrow> bool"
  for adj :: adjacency and avoid_blocked :: bool and start :: nat where
  walk_start: "walk adj avoid_blocked start [start] 0"
| walk_step: "walk adj avoid_blocked start p d \<Longrightarrow>
              (nb, w, blk) \<in> set (neighbours adj (last p)) \<Longrightarrow> \<not> (avoid_blocked \<and> blk) \<Longrightarrow>
              walk adj avoid_blocked start (p @ [nb]) (d + w)"

definition nonneg_weights :: "adjacency \<Rightarrow> bool" where
  "nonneg_weights adj \<longleftrightarrow>
     (\<forall>u nb w blk. (nb, w, blk) \<in> set (neighbours adj u) \<longrightarrow> 0 \<le> w)"

definition is_dist :: "adjacency \<Rightarrow> bool \<Rightarrow> nat \<Rightarrow> nat \<Rightarrow> real \<Rightarrow> bool" where
  "is_dist adj av start x dx \<longleftrightarrow>
     (\<exists>p. walk adj av start p dx \<and> last p = x)
     \<and> (\<forall>p d. walk adj av start p d \<and> last p = x \<longrightarrow> dx \<le> d)"

definition loop_inv :: "adjacency \<Rightarrow> bool \<Rightarrow> nat \<Rightarrow> nat \<Rightarrow> pq_entry list \<Rightarrow> nat set \<Rightarrow> bool" where
  "loop_inv adj av start target pq visited \<longleftrightarrow>
     (\<forall>d v p. (d, v, p) \<in> set pq \<longrightarrow> walk adj av start p d \<and> last p = v)
   \<and> (\<forall>x \<in> visited. \<exists>dx. is_dist adj av start x dx
          \<and> (\<forall>y w blk. (y, w, blk) \<in> set (neighbours adj x) \<and> \<not> (av \<and> blk) \<longrightarrow>
                 y \<in> visited \<or> (\<exists>p. (dx + w, y, p) \<in> set pq)))
   \<and> (start \<in> visited \<or> (\<exists>p. (0, start, p) \<in> set pq))
   \<and> target \<notin> visited"

definition search_ok :: "adjacency \<Rightarrow> bool \<Rightarrow> nat \<Rightarrow> nat \<Rightarrow> nat list option \<Rightarrow> bool" where
  "search_ok adj av start target res \<longleftrightarrow>
     (case res of
        Some p \<Rightarrow> \<exists>d. walk adj av start p d \<and> last p = target
                   \<and> (\<forall>p' d'. walk adj av start p' d' \<and> last p' = target \<longrightarrow> d \<le> d')
      | None \<Rightarrow> \<forall>p d. walk adj av start p d \<longrightarrow> last p \<noteq> target)"

text \<open>
  No operation of the environment adds or removes an edge or writes an end point or a
  distance: what stays of the edge list is its shape.
\<close>

definition road_shape :: "edge list \<Rightarrow> (nat \<times> nat \<times> real) list" where
  "road_shape es = map (\<lambda>e. (e_from e, e_to e, distance e)) es"

definition roads_inv :: "env \<Rightarrow> bool" where
  "roads_inv s \<longleftrightarrow> road_shape (edges s) = road_shape env_edges"

section \<open>A snapshot with blocked edges\<close>

text \<open>
  An earthquake whose draws block the edges 0--1, 1--5 and 4--5 (indices 0, 4 and 7): node 5
  can then be reached from the command centre only over a blocked edge.
\<close>

definition shaky :: trigger_rnd where
  "shaky = \<lparr>node_draw = (\<lambda>_. 1 / 2),
            edge_draw = (\<lambda>i. if i \<in> set [0, 4, 7] then 0 else 1 / 2),
            res_draw = (\<lambda>_. 0)\<rparr>"

definition shaken :: env where
  "shaken = trigger_disaster shaky ''earthquake'' 1 None init_env"

definition empty_plan :: plan where
  "empty_plan = \<lparr>routes = [], critical_nodes = [], command_center = 26, total_targets = 0\<rparr>"

definition shaken_plan :: plan where
  "shaken_plan =
     (case plan_rescue_routes env_nodes (edges shaken) (affected_nodes shaken) (scenario shaken) of
        Inr pl \<Rightarrow> pl | Inl _ \<Rightarrow> empty_plan)"

definition route_summary :: "plan \<Rightarrow> (nat \<times> nat list \<times> string) list" where
  "route_summary pl = map (\<lambda>r. (target_id r, path r, status r)) (routes pl)"

section \<open>The resource ledger under negative amounts\<close>

lemma use_resource_unknown:
  "resources s name = None \<Longrightarrow> use_resource name a s = (0, s)"
  by (simp add: use_resource_def)

lemma use_resource_nonneg_amount:
  assumes "resources s name = Some r" and "0 \<le> r" and "0 \<le> a"
    and "0 \<le> get_count (resources_used s) name"
  shows "0 \<le> get_count (resources (snd (use_resource name a s))) name
       \<and> 0 \<le> get_count (resources_used (snd (use_resource name a s))) name"
  using assms by (simp add: use_resource_def get_count_def Let_def min_def)

text \<open>
  C10. For a resource name present in the (non-negative) ledger and a negative amount \<open>a\<close>,
  \<open>use_resource\<close> returns \<open>a\<close>, raises the available count by \<open>-a\<close> and lowers the used
  counter by \<open>-a\<close>; a used counter smaller than \<open>-a\<close> thereby becomes negative. The
  \<open>min\<close> only guards against taking more than is available.
\<close>

theorem use_resource_negative_amount:
  assumes "resources s name = Some r" and "0 \<le> r" and "a < 0"
  shows "fst (use_resource name a s) = a
       \<and> resources (snd (use_resource name a s)) name = Some (r + (- a))
       \<and> resources_used (snd (use_resource name a s)) name
           = Some (get_count (resources_used s) name - (- a))
       \<and> (get_count (resources_used s) name < - a
            \<longrightarrow> get_count (resources_used (snd (use_resource name a s))) name < 0)"
proof -
  from assms have m: "min a r = a" by simp
  show ?thesis
    using assms(1) by (simp add: use_resource_def Let_def m get_count_def)
qed

theorem use_resource_negative_amount_witness:
  "resources init_env ''food_packs'' = Some 50 \<and> (0::int) \<le> 50 \<and> (-3::int) < 0
   \<and> fst (use_resource ''food_packs'' (-3) init_env) = -3
   \<and> resources (snd (use_resource ''food_packs'' (-3) init_env)) ''food_packs'' = Some 53
   \<and> resources_used (snd (use_resource ''food_packs'' (-3) init_env)) ''food_packs'' = Some (-3)
   \<and> get_count (resources_used (snd (use_resource ''food_packs'' (-3) init_env))) ''food_packs'' < 0"
proof -
  have h: "resources init_env ''food_packs'' = Some 50"
    by (simp add: init_env_def default_resources_def)
  have u: "get_count (resources_used init_env) ''food_packs'' = 0"
    by (simp add: init_env_def default_resources_def zero_counters_def get_count_def)
  show ?thesis
    using use_resource_negative_amount [OF h, of "-3"] h u by simp
qed

section \<open>Non-negativity of victims and of the resource counts\<close>

lemma nonneg_mapI: "(\<And>k v. m k = Some v \<Longrightarrow> 0 \<le> v) \<Longrightarrow> nonneg_map m"
  by (auto simp: nonneg_map_def get_count_def split: option.splits)

lemma nonneg_mapD: "nonneg_map m \<Longrightarrow> m k = Some v \<Longrightarrow> 0 \<le> v"
  unfolding nonneg_map_def get_count_def by (erule allE[of _ k]) simp

lemma nonneg_map_upd: "nonneg_map m \<Longrightarrow> 0 \<le> v \<Longrightarrow> nonneg_map (m(k \<mapsto> v))"
  by (auto simp: nonneg_map_def get_count_def split: option.splits)

lemma nonneg_default: "nonneg_map default_resources"
  by (rule nonneg_mapI) (auto simp: default_resources_def split: if_splits)

lemma rand_between_ge: "a \<le> rand_between a b u"
  by (simp add: rand_between_def)

lemma nonneg_override: "nonneg_map m \<Longrightarrow> nonneg_map (override_resources kvs m)"
  by (induction kvs m rule: override_resources.induct) (auto simp: nonneg_map_upd)

lemma rand_between_nonneg: "0 \<le> a \<Longrightarrow> 0 \<le> rand_between a b u"
  by (simp add: rand_between_def)

lemma nonneg_five:
  "nonneg_map m \<Longrightarrow> 0 \<le> a \<Longrightarrow> 0 \<le> b \<Longrightarrow> 0 \<le> c \<Longrightarrow> 0 \<le> d \<Longrightarrow> 0 \<le> e \<Longrightarrow>
   nonneg_map (m(k1 \<mapsto> a, k2 \<mapsto> b, k3 \<mapsto> c, k4 \<mapsto> d, k5 \<mapsto> e))"
  by (intro nonneg_map_upd)

lemma nonneg_generic:
  "nonneg_map (\<lambda>k. case m k of None \<Rightarrow> None | Some x \<Rightarrow> Some (max 0 (f k)))"
  by (rule nonneg_mapI) (auto split: option.splits)

lemma nonneg_random: "nonneg_map m \<Longrightarrow> nonneg_map (random_resources rnd sc level m)"
  unfolding random_resources_def
  by (simp add: nonneg_five rand_between_nonneg nonneg_generic)

lemma count_victims_ge: "10 \<le> count_victims sc level affected"
  by (simp add: count_victims_def)

lemma inv_trigger: "env_inv s \<Longrightarrow> env_inv (trigger_disaster rnd sc intensity res_arg s)"
  using count_victims_ge[of sc "max 0 (min 1 intensity)" "select_affected_nodes rnd sc"]
  by (auto simp: env_inv_def trigger_disaster_def Let_def nonneg_override nonneg_random
       split: option.splits list.splits)

lemma enforce_nonneg: "0 \<le> victims (enforce_non_negative s) \<and> nonneg_map (resources (enforce_non_negative s))"
  by (auto simp: enforce_non_negative_def intro!: nonneg_mapI split: option.splits)

lemma enforce_other: "seismic_level (enforce_non_negative s) = seismic_level s"
  "cooldown_counter (enforce_non_negative s) = cooldown_counter s"
  "phase (enforce_non_negative s) = phase s"
  by (simp_all add: enforce_non_negative_def)

lemma py_int_ge: "n \<le> x \<Longrightarrow> 0 \<le> n \<Longrightarrow> n \<le> py_int x" for n :: int
  by (auto simp: py_int_def le_floor_iff)

lemma response_ok:
  assumes "0 \<le> seismic_level s"
  shows "\<exists>s'. update_response rnd s = Inr s' \<and> 0 \<le> seismic_level s' \<and> cooldown_counter s' = cooldown_counter s"
proof -
  let ?level = "max 0 (seismic_level s - decay_draw rnd * 0.1)"
  have "(5::real) \<le> 10 * (0.5 + ?level)" by simp
  then have "5 \<le> py_int (10 * (0.5 + ?level))"
    by (simp add: py_int_def le_floor_iff)
  then have "\<not> py_int (10 * (0.5 + ?level)) < 1" by simp
  then show ?thesis
    by (auto simp: update_response_def Let_def randint_def)
qed

lemma rebuild_ok:
  assumes "0 \<le> seismic_level s" "0 \<le> cooldown_counter s"
  shows "0 \<le> seismic_level (update_rebuild rnd s) \<and> 0 \<le> cooldown_counter (update_rebuild rnd s)"
  using assms rand_between_ge[of 2 6 "cooldown_draw rnd"]
  by (auto simp: update_rebuild_def Let_def)

lemma recovered_ok:
  assumes "env_inv s"
  shows "env_inv (update_recovered rnd s)"
  using assms inv_trigger[OF assms] by (auto simp: update_recovered_def) (auto simp: env_inv_def)

lemma update_total:
  assumes "env_inv s"
  shows "\<exists>s'. update rnd s = Inr s' \<and> env_inv s'"
proof (cases "phase s")
  case Idle
  then show ?thesis using assms by (simp add: update_def)
next
  case Response
  let ?s1 = "s\<lparr>time_step := time_step s + 1,
                 env_stats := (env_stats s)\<lparr>total_time_steps := total_time_steps (env_stats s) + 1\<rparr>\<rparr>"
  have "0 \<le> seismic_level ?s1" using assms by (simp add: env_inv_def)
  from response_ok[OF this, of rnd] obtain s' where
    "update_response rnd ?s1 = Inr s'" "0 \<le> seismic_level s'" "cooldown_counter s' = cooldown_counter ?s1"
    by blast
  then show ?thesis using Response assms enforce_nonneg[of s']
    by (simp add: update_def Let_def env_inv_def enforce_other)
next
  case Rebuild
  let ?s1 = "s\<lparr>time_step := time_step s + 1,
                 env_stats := (env_stats s)\<lparr>total_time_steps := total_time_steps (env_stats s) + 1\<rparr>\<rparr>"
  have "0 \<le> seismic_level ?s1" "0 \<le> cooldown_counter ?s1" using assms by (simp_all add: env_inv_def)
  from rebuild_ok[OF this, of rnd] show ?thesis using Rebuild enforce_nonneg[of "update_rebuild rnd ?s1"]
    by (simp add: update_def Let_def env_inv_def enforce_other)
next
  case Recovered
  let ?s1 = "s\<lparr>time_step := time_step s + 1,
                 env_stats := (env_stats s)\<lparr>total_time_steps := total_time_steps (env_stats s) + 1\<rparr>\<rparr>"
  have "env_inv ?s1" using assms by (simp add: env_inv_def)
  from recovered_ok[OF this, of rnd] show ?thesis using Recovered enforce_nonneg[of "update_recovered rnd ?s1"]
    by (simp add: update_def Let_def env_inv_def enforce_other)
qed

lemma inv_use: "env_inv s \<Longrightarrow> env_inv (snd (use_resource name amount s))"
  by (auto simp: env_inv_def use_resource_def Let_def intro!: nonneg_map_upd dest: nonneg_mapD split: option.splits)

lemma inv_save: "env_inv s \<Longrightarrow> env_inv (snd (save_victims count s))"
  by (auto simp: env_inv_def save_victims_def Let_def)

lemma inv_reset: "env_inv (reset s)"
  by (simp add: env_inv_def reset_def nonneg_default)

lemma inv_init: "env_inv init_env"
  by (simp add: env_inv_def init_env_def nonneg_default)

lemma inv_consume: "env_inv s \<Longrightarrow> env_inv (consume_alloc alloc s)"
  by (induction alloc s rule: consume_alloc.induct) (auto simp: inv_use)

lemma inv_utility_rescue: "env_inv s \<Longrightarrow> env_inv (snd (utility_rescue pl s))"
proof -
  assume "env_inv s"
  then have c: "env_inv (consume_alloc (payload_allocation pl) s)" by (rule inv_consume)
  have "\<And>n a s2. save_victims n (consume_alloc (payload_allocation pl) s) = (a, s2) \<Longrightarrow> env_inv s2"
    using inv_save[OF c] by (metis snd_conv)
  then show ?thesis using c
    by (auto simp: utility_rescue_def Let_def split: prod.splits)
qed

lemma inv_utility_execute: "env_inv (fst sb) \<Longrightarrow> env_inv (fst (utility_execute clk ds sb))"
proof (induction clk ds sb rule: utility_execute.induct)
  case (1 clk sb) then show ?case by simp
next
  case (2 clk d ds s b)
  then show ?case using inv_utility_rescue[of s "i_payload d"]
    by (auto simp: Let_def split: prod.splits if_splits)
qed

lemma inv_utility: "env_inv s \<Longrightarrow> env_inv (fst (utility_act clk s b st))"
  using inv_utility_execute[of "(s, b)" clk "fst (utility_decide s st)"]
  by (auto simp: utility_act_def Let_def split: prod.splits)

lemma inv_rebuild_request: "env_inv s \<Longrightarrow> env_inv (fst (rebuild_request clk d s b))"
proof -
  assume a: "env_inv s"
  let ?amt = "min (payload_needed (i_payload d)) (get_count (resources s) ''food_packs'' div FOOD_COST_PER_CREW) * FOOD_COST_PER_CREW"
  let ?s1 = "snd (use_resource ''food_packs'' ?amt s)"
  have i1: "env_inv ?s1" using a by (rule inv_use)
  have "0 \<le> get_count (resources ?s1) ''repair_crews''"
    using i1 by (simp add: env_inv_def nonneg_map_def)
  then have "\<And>f. 0 < f \<Longrightarrow> env_inv (?s1\<lparr>resources := (resources ?s1)(''repair_crews'' \<mapsto>
                                get_count (resources ?s1) ''repair_crews'' + f div FOOD_COST_PER_CREW)\<rparr>)"
    using i1 by (auto simp: env_inv_def FOOD_COST_PER_CREW_def intro!: nonneg_map_upd)
  then show ?thesis using a i1
    by (auto simp: rebuild_request_def repair_blocked_def Let_def split: prod.splits)
qed

lemma inv_rebuild_execute: "env_inv (fst sb) \<Longrightarrow> env_inv (fst (rebuild_execute clk ds sb))"
proof (induction clk ds sb rule: rebuild_execute.induct)
  case (1 clk sb) then show ?case by simp
next
  case (2 clk d ds s b)
  then show ?case using inv_rebuild_request[of s clk d b]
    by (auto split: if_splits)
qed

lemma inv_rebuild: "env_inv s \<Longrightarrow> env_inv (fst (rebuild_act clk s b))"
  using inv_rebuild_execute[of "(s, b)" clk "rebuild_decide s"]
  by (simp add: rebuild_act_def)

lemma reachable_inv: "reachable s \<Longrightarrow> env_inv s"
proof (induction rule: reachable.induct)
  case (r_update s urnd s')
  then show ?case using update_total[of s urnd] by auto
qed (auto simp: inv_init inv_trigger inv_use inv_save inv_reset inv_utility inv_rebuild)


lemma reachable_step: "reachable s \<Longrightarrow> reachable (step_env rnd s)"
  by (cases "update rnd s") (simp_all add: step_env_def r_update)

lemma struck_reachable: "reachable struck"
  unfolding struck_def by (rule r_trigger) (rule r_init)

lemma struck_facts: "phase struck = Response" "seismic_level struck = 1"
  by (simp_all add: struck_def trigger_disaster_def Let_def)

lemma rescued_reachable: "reachable rescued"
  unfolding rescued_def by (rule r_save) (rule struck_reachable)

lemma rescued_facts:
  "phase rescued = Response" "seismic_level rescued = 1" "victims rescued = 0"
  by (simp_all add: rescued_def save_victims_def Let_def struck_facts)

section \<open>Phase transitions\<close>

lemma phase_trigger: "phase (trigger_disaster rnd sc intensity res_arg s) = Response"
  by (simp add: trigger_disaster_def Let_def)

lemma response_phase:
  "update_response rnd s = Inr s' \<Longrightarrow> phase s = Response \<Longrightarrow>
     phase s' = Response \<or> (phase s' = Rebuild \<and> victims s' \<le> 0 \<and> \<not> aftershock s' \<and> victims s \<le> 0)"
  by (auto simp: update_response_def Let_def randint_def split: if_splits sum.splits)

lemma rebuild_phase:
  "phase s = Rebuild \<Longrightarrow>
     phase (update_rebuild rnd s) = Rebuild
     \<or> (phase (update_rebuild rnd s) = Recovered \<and> 100 \<le> rebuild_progress (update_rebuild rnd s))"
  by (auto simp: update_rebuild_def Let_def rebuild_required_def)

lemma recovered_phase:
  "phase s = Recovered \<Longrightarrow>
     phase (update_recovered rnd s) = Recovered
     \<or> (phase (update_recovered rnd s) = Response \<and> cooldown_counter s \<le> 0)"
  by (auto simp: update_recovered_def phase_trigger)

lemma enforce_fields:
  "phase (enforce_non_negative s) = phase s"
  "aftershock (enforce_non_negative s) = aftershock s"
  "rebuild_progress (enforce_non_negative s) = rebuild_progress s"
  "victims (enforce_non_negative s) = max 0 (victims s)"
  by (simp_all add: enforce_non_negative_def)

lemma update_phase:
  assumes "update rnd s = Inr s'" and "phase s' \<noteq> phase s"
  shows "(phase s = Response \<and> phase s' = Rebuild \<and> victims s \<le> 0 \<and> victims s' = 0 \<and> \<not> aftershock s')
       \<or> (phase s = Rebuild \<and> phase s' = Recovered \<and> 100 \<le> rebuild_progress s')
       \<or> (phase s = Recovered \<and> phase s' = Response \<and> cooldown_counter s \<le> 0)"
proof (cases "phase s")
  case Idle
  then show ?thesis using assms by (simp add: update_def)
next
  case Response
  let ?s1 = "s\<lparr>time_step := time_step s + 1,
                 env_stats := (env_stats s)\<lparr>total_time_steps := total_time_steps (env_stats s) + 1\<rparr>\<rparr>"
  from assms(1) Response obtain s2 where s2: "update_response rnd ?s1 = Inr s2" "s' = enforce_non_negative s2"
    by (auto simp: update_def Let_def split: sum.splits)
  from response_phase[OF s2(1)] Response assms(2) s2(2) show ?thesis
    by (auto simp: enforce_fields)
next
  case Rebuild
  let ?s1 = "s\<lparr>time_step := time_step s + 1,
                 env_stats := (env_stats s)\<lparr>total_time_steps := total_time_steps (env_stats s) + 1\<rparr>\<rparr>"
  from assms(1) Rebuild have s2: "s' = enforce_non_negative (update_rebuild rnd ?s1)"
    by (auto simp: update_def Let_def split: sum.splits)
  from rebuild_phase[of ?s1 rnd] Rebuild assms(2) s2 show ?thesis
    by (auto simp: enforce_fields)
next
  case Recovered
  let ?s1 = "s\<lparr>time_step := time_step s + 1,
                 env_stats := (env_stats s)\<lparr>total_time_steps := total_time_steps (env_stats s) + 1\<rparr>\<rparr>"
  from assms(1) Recovered have s2: "s' = enforce_non_negative (update_recovered rnd ?s1)"
    by (auto simp: update_def Let_def split: sum.splits)
  from recovered_phase[of ?s1 rnd] Recovered assms(2) s2 show ?thesis
    by (auto simp: enforce_fields)
qed

text \<open>
  C3, as amended. \<open>trigger_disaster\<close> puts the environment into the response phase from
  whatever phase it is called in. \<open>update()\<close> changes the phase of a reachable state only
  from response to rebuild, with no victims and no aftershock; from rebuild to recovered,
  with progress at least 100; from recovered to response, with the cooldown counter at 0.
  It never leaves idle.
\<close>

theorem phase_transitions:
  assumes "reachable s"
  shows "phase (trigger_disaster trnd sc intensity res_arg s) = Response
       \<and> (\<forall>rnd s'. update rnd s = Inr s' \<and> phase s' \<noteq> phase s \<longrightarrow>
            (phase s = Response \<and> phase s' = Rebuild \<and> victims s = 0 \<and> victims s' = 0 \<and> \<not> aftershock s')
          \<or> (phase s = Rebuild \<and> phase s' = Recovered \<and> 100 \<le> rebuild_progress s')
          \<or> (phase s = Recovered \<and> phase s' = Response \<and> cooldown_counter s = 0))"
proof (intro conjI allI impI)
  show "phase (trigger_disaster trnd sc intensity res_arg s) = Response" by (rule phase_trigger)
next
  fix rnd s'
  assume a: "update rnd s = Inr s' \<and> phase s' \<noteq> phase s"
  from assms have "env_inv s" by (rule reachable_inv)
  then have nn: "0 \<le> victims s" "0 \<le> cooldown_counter s" by (simp_all add: env_inv_def)
  from a have "update rnd s = Inr s'" "phase s' \<noteq> phase s" by simp_all
  from update_phase[OF this] nn
  show "(phase s = Response \<and> phase s' = Rebuild \<and> victims s = 0 \<and> victims s' = 0 \<and> \<not> aftershock s')
          \<or> (phase s = Rebuild \<and> phase s' = Recovered \<and> 100 \<le> rebuild_progress s')
          \<or> (phase s = Recovered \<and> phase s' = Response \<and> cooldown_counter s = 0)"
    by auto
qed

lemma rebuilding_reachable: "reachable rebuilding"
  unfolding rebuilding_def by (rule reachable_step) (rule rescued_reachable)

lemma update_rescued:
  "update quiet_update rescued =
     Inr (enforce_non_negative
       (rescued\<lparr>time_step := time_step rescued + 1,
          aftershock := False, roads_blocked := False, seismic_level := 19 / 20,
          phase := Rebuild, rebuild_progress := 0,
          env_stats := (env_stats rescued)\<lparr>total_time_steps := total_time_steps (env_stats rescued) + 1,
                          stat_victims_saved := victims_saved rescued\<rparr>\<rparr>))"
  by (simp add: update_def update_response_def Let_def rescued_facts quiet_update_def
        aftershock_factor_def road_block_chance_def)

lemma rebuilding_facts: "phase rebuilding = Rebuild" "rebuild_progress rebuilding = 0"
  by (simp_all add: rebuilding_def step_env_def update_rescued enforce_fields)

text \<open>
  Counterexample to C3: a reachable state in the rebuild phase that \<open>trigger_disaster\<close>
  moves to response, a transition that is not among the four listed.
\<close>

theorem trigger_leaves_rebuild:
  "reachable rebuilding \<and> phase rebuilding = Rebuild
   \<and> phase (trigger_disaster calm_trigger ''flood'' 1 None rebuilding) = Response"
  by (simp add: rebuilding_facts rebuilding_reachable phase_trigger)

theorem phase_transitions_witness:
  "reachable rescued
   \<and> update quiet_update rescued = Inr rebuilding \<and> phase rebuilding \<noteq> phase rescued
   \<and> phase rescued = Response \<and> phase rebuilding = Rebuild \<and> victims rescued = 0
   \<and> victims rebuilding = 0 \<and> \<not> aftershock rebuilding
   \<and> phase (trigger_disaster calm_trigger ''flood'' 1 None rescued) = Response"
proof -
  have u: "update quiet_update rescued = Inr rebuilding"
    by (simp add: rebuilding_def step_env_def update_rescued)
  have d: "phase rebuilding \<noteq> phase rescued"
    by (simp add: rebuilding_facts rescued_facts)
  from phase_transitions [OF rescued_reachable, of calm_trigger "''flood''" 1 None] u d
  have "phase rescued = Response \<and> phase rebuilding = Rebuild \<and> victims rescued = 0
          \<and> victims rebuilding = 0 \<and> \<not> aftershock rebuilding"
    by (auto simp: rebuilding_facts rescued_facts)
  then show ?thesis using u d rescued_reachable by (simp add: phase_trigger)
qed


section \<open>The ledger invariant\<close>

lemma careful_reachable: "reachable_careful s \<Longrightarrow> reachable s"
  by (induction rule: reachable_careful.induct) (auto intro: reachable.intros)




























section \<open>The earthquake scenario\<close>

lemma upt27:
  "[0..<27] = [0,1,2,3,4,5,6,7,8,9,10,11,12,13,14,15,16,17,18,19,20,21,22,23,24,25,26]"
  by (simp add: upt_conv_Cons)

lemma length_env_nodes: "length env_nodes = 27"
  by (simp add: env_nodes_def)

lemma env_node_ids: "map node_id env_nodes = [0..<length env_nodes]"
  unfolding length_env_nodes upt27 by (simp add: env_nodes_def mk_node_def)

lemma earthquake_victims: "count_victims ''earthquake'' 1 [0..<length env_nodes] = 271039"
  unfolding length_env_nodes upt27
  by (simp add: count_victims_def base_victims_def env_nodes_def mk_node_def
        vulnerability_of_def py_int_def)

lemma earthquake_exact_sum:
  "(\<Sum>nid\<leftarrow>[0..<length env_nodes].
       real_of_int (population (env_nodes ! nid)) * 0.01 * 1
         * vulnerability_of (env_nodes ! nid) ''earthquake'') = 135521359 / 500"
  unfolding length_env_nodes upt27
  by (simp add: env_nodes_def mk_node_def vulnerability_of_def)

lemma trigger_earthquake_fields:
  "affected_nodes (trigger_disaster rnd ''earthquake'' 1 res_arg s) = [0..<length env_nodes]"
  "victims (trigger_disaster rnd ''earthquake'' 1 res_arg s)
     = count_victims ''earthquake'' 1 [0..<length env_nodes]"
  "seismic_level (trigger_disaster rnd ''earthquake'' 1 res_arg s) = 1"
  by (simp_all add: trigger_disaster_def Let_def select_affected_nodes_def)

text \<open>
  C5, as amended. After \<open>trigger_disaster("earthquake", 1.0)\<close>, whatever the state, the
  draws and the resources argument, the affected nodes are all node ids and victims is
  \<open>max(10, \<Sum> int(population \<times> 0.01 \<times> seismic_level \<times> vulnerability))\<close>, every node's share
  truncated to an integer before it is added: 271039 on the graph of the environment.
\<close>

theorem trigger_earthquake_full:
  "affected_nodes (trigger_disaster rnd ''earthquake'' 1 res_arg s) = map node_id env_nodes
   \<and> victims (trigger_disaster rnd ''earthquake'' 1 res_arg s)
       = max 10 (\<Sum>nid\<leftarrow>map node_id env_nodes.
                   py_int (real_of_int (population (env_nodes ! nid)) * 0.01
                           * seismic_level (trigger_disaster rnd ''earthquake'' 1 res_arg s)
                           * vulnerability_of (env_nodes ! nid) ''earthquake''))
   \<and> victims (trigger_disaster rnd ''earthquake'' 1 res_arg s) = 271039"
proof -
  have "count_victims ''earthquake'' 1 [0..<length env_nodes]
          = max 10 (\<Sum>nid\<leftarrow>[0..<length env_nodes].
                   py_int (real_of_int (population (env_nodes ! nid)) * 0.01 * 1
                           * vulnerability_of (env_nodes ! nid) ''earthquake''))"
    by (simp add: count_victims_def base_victims_def Let_def cong: map_cong)
  then show ?thesis
    by (simp add: trigger_earthquake_fields env_node_ids earthquake_victims)
qed

text \<open>
  Counterexample to C5: the sum of the untruncated shares is 271042.718, not the 271039
  victims the environment holds.
\<close>

theorem trigger_earthquake_untruncated:
  "real_of_int (victims struck)
     \<noteq> max 10 (\<Sum>nid\<leftarrow>affected_nodes struck.
                 real_of_int (population (env_nodes ! nid)) * 0.01 * seismic_level struck
                   * vulnerability_of (env_nodes ! nid) ''earthquake'')"
  unfolding struck_def trigger_earthquake_fields earthquake_victims earthquake_exact_sum
  by simp

section \<open>Replay of the bus to one consumer\<close>

lemma unread_eq: "unread c b = filter (\<lambda>m. cursor c b < msg_id m) (messages b)"
  by (simp add: unread_def read_all_def cursor_def Let_def)

lemma bus_inv_send: "bus_inv c b \<Longrightarrow> bus_inv c (snd (send sndr mtype pl prio t b))"
  by (auto simp: bus_inv_def bus_ok_def send_def Let_def cursor_def sorted_wrt_append list_all_iff
        split: option.splits)

lemma unread_send:
  "bus_inv c b \<Longrightarrow> unread c (snd (send sndr mtype pl prio t b))
      = unread c b @ [last (messages (snd (send sndr mtype pl prio t b)))]"
  by (auto simp: unread_eq bus_inv_def send_def Let_def cursor_def split: option.splits)

lemma sorted_last_max:
  "sorted_wrt (<) (map f xs) \<Longrightarrow> xs \<noteq> [] \<Longrightarrow> x \<in> set xs \<Longrightarrow> (f x :: int) \<le> f (last xs)"
proof (induction xs)
  case Nil then show ?case by simp
next
  case (Cons a xs)
  then show ?case by (cases "xs = []") (auto simp: less_imp_le)
qed

lemma bus_inv_read_same: "bus_inv c b \<Longrightarrow> bus_inv c (snd (read_all c False b))"
  by (auto simp: bus_inv_def bus_ok_def read_all_def Let_def cursor_def list_all_iff)

lemma unread_read_same: 
  assumes "bus_ok b" shows "unread c (snd (read_all c False b)) = []"
proof (cases "messages b = []")
  case True then show ?thesis by (simp add: unread_eq read_all_def Let_def)
next
  case False
  have "\<forall>m\<in>set (messages b). msg_id m \<le> msg_id (last (messages b))"
    using assms False sorted_last_max[of msg_id "messages b"] by (auto simp: bus_ok_def)
  then show ?thesis using False
    by (auto simp: unread_eq read_all_def Let_def cursor_def filter_empty_conv not_less)
qed

lemma read_other:
  "c' \<noteq> c \<Longrightarrow> unread c (snd (read_all c' False b)) = unread c b"
  "c' \<noteq> c \<Longrightarrow> bus_inv c b \<Longrightarrow> bus_inv c (snd (read_all c' False b))"
  by (auto simp: unread_eq read_all_def Let_def cursor_def bus_inv_def bus_ok_def)

lemma sorted_wrt_drop: "sorted_wrt P xs \<Longrightarrow> sorted_wrt P (drop n xs)"
  by (metis append_take_drop_id sorted_wrt_append)

lemma bus_inv_clear: "bus_inv c b \<Longrightarrow> bus_inv c (clear_old_messages k b)"
  by (auto simp: bus_inv_def bus_ok_def clear_old_messages_def py_last_n_def cursor_def
        list_all_iff sorted_wrt_drop drop_map[symmetric] dest: in_set_dropD)

lemma stream:
  "bus_inv c b \<Longrightarrow> keeps_unread c calls b \<Longrightarrow>
     reads c calls b @ unread c (bus_run calls b) = unread c b @ sent calls b"
proof (induction calls arbitrary: b)
  case Nil then show ?case by simp
next
  case (Cons call calls)
  show ?case
  proof (cases call)
    case (Send sndr mtype pl prio t)
    with Cons.prems have "bus_inv c (bus_step call b)" "keeps_unread c calls (bus_step call b)"
      by (simp_all add: bus_inv_send)
    from Cons.IH[OF this] Send Cons.prems(1) show ?thesis
      by (simp add: unread_send)
  next
    case (ReadAll c')
    show ?thesis
    proof (cases "c' = c")
      case True
      with ReadAll Cons.prems have "bus_inv c (bus_step call b)" "keeps_unread c calls (bus_step call b)"
        by (simp_all add: bus_inv_read_same)
      moreover have "unread c (snd (read_all c False b)) = []"
        using Cons.prems(1) by (simp add: unread_read_same bus_inv_def)
      ultimately show ?thesis using Cons.IH[of "bus_step call b"] ReadAll True
        by (simp add: unread_def[symmetric])
    next
      case False
      with ReadAll Cons.prems have "bus_inv c (bus_step call b)" "keeps_unread c calls (bus_step call b)"
        by (simp_all add: read_other)
      from Cons.IH[OF this] ReadAll False show ?thesis
        by (simp add: read_other)
    qed
  next
    case (ClearOld k)
    with Cons.prems have "bus_inv c (bus_step call b)" "keeps_unread c calls (bus_step call b)"
      "unread c (clear_old_messages k b) = unread c b"
      by (simp_all add: bus_inv_clear)
    from Cons.IH[OF this(1,2)] ClearOld this(3) show ?thesis
      by simp
  qed
qed


lemma counter_mono: "message_id_counter b \<le> message_id_counter (bus_step call b)"
  by (cases call)
     (auto simp: send_def read_all_def clear_old_messages_def Let_def)

lemma sent_ids:
  "list_all (\<lambda>m. message_id_counter b < msg_id m) (sent calls b)
   \<and> sorted_wrt (<) (map msg_id (sent calls b))"
proof (induction calls arbitrary: b)
  case Nil
  then show ?case by simp
next
  case (Cons call calls)
  have ih: "list_all (\<lambda>m. message_id_counter (bus_step call b) < msg_id m)
              (sent calls (bus_step call b))"
    "sorted_wrt (<) (map msg_id (sent calls (bus_step call b)))"
    using Cons.IH[of "bus_step call b"] by simp_all
  have up: "list_all (\<lambda>m. message_id_counter b < msg_id m) (sent calls (bus_step call b))"
    using ih(1) counter_mono[of b call] by (auto simp: list_all_iff)
  show ?case
  proof (cases call)
    case (Send sndr mtype pl prio t)
    have "msg_id (last (messages (snd (send sndr mtype pl prio t b)))) = message_id_counter b + 1"
      "message_id_counter (bus_step call b) = message_id_counter b + 1"
      using Send by (simp_all add: send_def Let_def)
    then show ?thesis using Send ih by (auto simp: list_all_iff)
  next
    case (ReadAll c)
    then show ?thesis using ih(2) up by simp
  next
    case (ClearOld k)
    then show ?thesis using ih(2) up by simp
  qed
qed

lemma bus_inv_new: "bus_inv c (new_bus n)"
  by (simp add: bus_inv_def bus_ok_def new_bus_def cursor_def)

lemma bus_inv_step: "bus_inv c b \<Longrightarrow> bus_inv c (bus_step call b)"
proof (cases call)
  case (ReadAll c')
  assume "bus_inv c b"
  then show ?thesis using ReadAll
    by (cases "c' = c") (simp_all add: bus_inv_read_same read_other)
qed (simp_all add: bus_inv_send bus_inv_clear)

lemma bus_inv_run: "bus_inv c b \<Longrightarrow> bus_inv c (bus_run calls b)"
  by (induction calls arbitrary: b) (simp_all add: bus_inv_step)

lemma first_read_inv: "bus_inv c (first_read c pre n)"
  unfolding first_read_def
  by (rule bus_inv_read_same) (rule bus_inv_run, rule bus_inv_new)

lemma first_read_unread: "unread c (first_read c pre n) = []"
proof -
  have "bus_inv c (bus_run pre (new_bus n))"
    by (rule bus_inv_run) (rule bus_inv_new)
  then show ?thesis
    unfolding first_read_def by (simp add: unread_read_same bus_inv_def)
qed

text \<open>
  C1, as amended. Take a consumer's \<open>read_all\<close> on a bus (after any earlier calls), then
  any run of \<open>send\<close>, \<open>read_all\<close> (of any consumer, \<open>clear=false\<close>) and
  \<open>clear_old_messages\<close> calls in which every compaction leaves the consumer's unread
  messages in the active list. The consumer's reads during the run, concatenated and
  followed by what is still unread at its end, are exactly the messages sent during the
  run, in send order; their ids increase strictly, so each occurs once.
\<close>

theorem read_all_stream:
  assumes "keeps_unread c calls (first_read c pre n)"
  shows "reads c calls (first_read c pre n)
           @ unread c (bus_run calls (first_read c pre n))
         = sent calls (first_read c pre n)
       \<and> sorted_wrt (<) (map msg_id (sent calls (first_read c pre n)))"
  using stream[OF first_read_inv assms] sent_ids[of "first_read c pre n" calls]
  by (simp add: first_read_unread)

theorem read_all_stream_witness:
  "keeps_unread ''c1'' kept_calls (first_read ''c1'' [Send ''A'' ''w'' () 1 0] 500)
   \<and> reads ''c1'' kept_calls (first_read ''c1'' [Send ''A'' ''w'' () 1 0] 500)
         @ unread ''c1'' (bus_run kept_calls (first_read ''c1'' [Send ''A'' ''w'' () 1 0] 500))
       = sent kept_calls (first_read ''c1'' [Send ''A'' ''w'' () 1 0] 500)
   \<and> length (reads ''c1'' kept_calls (first_read ''c1'' [Send ''A'' ''w'' () 1 0] 500)) = 3"
proof -
  have k: "keeps_unread ''c1'' kept_calls (first_read ''c1'' [Send ''A'' ''w'' () 1 0] 500)"
    unfolding kept_calls_def first_read_def by code_simp
  have l: "length (reads ''c1'' kept_calls (first_read ''c1'' [Send ''A'' ''w'' () 1 0] 500)) = 3"
    unfolding kept_calls_def first_read_def by code_simp
  show ?thesis
    using read_all_stream [OF k] k l by simp
qed

text \<open>
  Counterexample to C1: the consumer reads an empty bus, 101 messages are sent, the
  orchestrator's \<open>clear_old_messages(100)\<close> runs, the consumer reads again. Its reads hold
  100 messages; message 1 was dropped unread.
\<close>

theorem compaction_loses_messages:
  "reads ''c1'' overflow_calls (first_read ''c1'' [] 500)
     \<noteq> sent overflow_calls (first_read ''c1'' [] 500)"
proof -
  have "length (reads ''c1'' overflow_calls (first_read ''c1'' [] 500)) = 100"
    unfolding overflow_calls_def first_read_def by code_simp
  moreover have "length (sent overflow_calls (first_read ''c1'' [] 500)) = 101"
    unfolding overflow_calls_def first_read_def by code_simp
  ultimately show ?thesis by auto
qed

section \<open>RebuildAgent: recruiting crews with food\<close>

lemma messages_bus_send:
  "messages (bus_send name clk mtype pl prio b)
     = messages b @ [\<lparr>msg_id = message_id_counter b + 1, msg_type = mtype, sender = name,
                      payload = pl, priority = prio, ts = clk (message_id_counter b + 1)\<rparr>]"
  by (simp add: bus_send_def send_def Let_def)

lemma get_count_upd: "get_count (m(k \<mapsto> v)) k' = (if k' = k then v else get_count m k')"
  by (simp add: get_count_def)

lemma use_resource_within:
  assumes "0 < a" "a \<le> get_count (resources s) name"
  shows "use_resource name a s =
     (a, s\<lparr>resources := (resources s)(name \<mapsto> get_count (resources s) name - a),
           resources_used := (resources_used s)(name \<mapsto> get_count (resources_used s) name + a)\<rparr>)"
proof -
  from assms obtain r where r: "resources s name = Some r" "a \<le> r"
    by (cases "resources s name") (auto simp: get_count_def)
  then show ?thesis by (simp add: use_resource_def Let_def get_count_def min_def)
qed

lemma rebuild_request_alloc:
  assumes "i_payload d = RepairRequest c needed t" "0 < needed"
    and "FOOD_COST_PER_CREW \<le> get_count (resources s) ''food_packs''"
  shows "rebuild_request clk d s b =
     (let add = min needed (get_count (resources s) ''food_packs'' div FOOD_COST_PER_CREW) in
      (s\<lparr>resources := (resources s)
             (''food_packs'' \<mapsto> get_count (resources s) ''food_packs'' - add * FOOD_COST_PER_CREW,
              ''repair_crews'' \<mapsto> get_count (resources s) ''repair_crews'' + add),
          resources_used := (resources_used s)
             (''food_packs'' \<mapsto> get_count (resources_used s) ''food_packs'' + add * FOOD_COST_PER_CREW)\<rparr>,
       bus_send ''RebuildAgent'' clk ''repair_alloc''
         (RepairAlloc add (add * FOOD_COST_PER_CREW) t) (i_priority d) b))"
proof -
  let ?food = "get_count (resources s) ''food_packs''"
  let ?add = "min needed (?food div FOOD_COST_PER_CREW)"
  have m: "0 < ?food div FOOD_COST_PER_CREW" using assms(3) by (simp add: FOOD_COST_PER_CREW_def pos_imp_zdiv_pos_iff)
  then have a: "0 < ?add" using assms(2) by simp
  have "?add * FOOD_COST_PER_CREW \<le> (?food div FOOD_COST_PER_CREW) * FOOD_COST_PER_CREW"
    by (simp add: FOOD_COST_PER_CREW_def)
  also have "\<dots> \<le> ?food" by (simp add: FOOD_COST_PER_CREW_def)
  finally have le: "?add * FOOD_COST_PER_CREW \<le> ?food" .
  have pos: "0 < ?add * FOOD_COST_PER_CREW" using a by (simp add: FOOD_COST_PER_CREW_def)
  note u = use_resource_within[OF pos le]
  have dv: "?add * FOOD_COST_PER_CREW div FOOD_COST_PER_CREW = ?add" by (simp add: FOOD_COST_PER_CREW_def)
  show ?thesis
    using m pos
    by (simp add: rebuild_request_def Let_def u dv assms(1) payload_needed_def payload_time_step_def
          get_count_upd)
qed

lemma rebuild_request_blocked:
  assumes "i_payload d = RepairRequest c needed t"
    and "get_count (resources s) ''food_packs'' < FOOD_COST_PER_CREW"
  shows "rebuild_request clk d s b =
     (s, bus_send ''RebuildAgent'' clk ''repair_blocked''
           (RepairBlocked needed (get_count (resources s) ''food_packs'') (needed * FOOD_COST_PER_CREW) t)
           (max 1 (i_priority d - 2)) b)"
proof -
  have "\<not> 0 < get_count (resources s) ''food_packs'' div FOOD_COST_PER_CREW"
    using assms(2) by (simp add: FOOD_COST_PER_CREW_def pos_imp_zdiv_pos_iff)
  then show ?thesis
    by (simp add: rebuild_request_def repair_blocked_def Let_def assms(1) payload_needed_def payload_time_step_def)
qed
lemma rebuild_decide_short:
  assumes "phase s = Rebuild" "get_count (resources s) ''repair_crews'' < MIN_CREWS_FOR_REBUILD"
  shows "\<exists>st. rebuild_decide s =
      [\<lparr>i_type = ''repair_status'', i_payload = st, i_priority = 6\<rparr>,
       \<lparr>i_type = ''repair_request'',
        i_payload = RepairRequest (get_count (resources s) ''repair_crews'') (crew_shortfall s) (time_step s),
        i_priority = 8\<rparr>] @ milestone_intents s"
  using assms by (simp add: rebuild_decide_def Let_def milestone_intents_def crew_shortfall_def)

lemma milestone_execute:
  "fst (rebuild_execute clk (milestone_intents obs) sb) = fst sb"
  "\<exists>extra. messages (snd (rebuild_execute clk (milestone_intents obs) sb)) = messages (snd sb) @ extra"
  by (cases sb; cases "first_milestone (rebuild_progress obs) [25, 50, 75, 90]";
      simp add: milestone_intents_def messages_bus_send)+

lemma rebuild_act_shape:
  assumes "phase s = Rebuild" "get_count (resources s) ''repair_crews'' < MIN_CREWS_FOR_REBUILD"
  shows "\<exists>b1 extra req.
      i_payload req = RepairRequest (get_count (resources s) ''repair_crews'') (crew_shortfall s) (time_step s)
    \<and> i_priority req = 8
    \<and> length (messages b1) = length (messages b) + 1
    \<and> fst (rebuild_act clk s b) = fst (rebuild_request clk req s b1)
    \<and> messages (snd (rebuild_act clk s b)) = messages (snd (rebuild_request clk req s b1)) @ extra"
proof -
  from rebuild_decide_short[OF assms] obtain st where
    d: "rebuild_decide s =
      [\<lparr>i_type = ''repair_status'', i_payload = st, i_priority = 6\<rparr>,
       \<lparr>i_type = ''repair_request'',
        i_payload = RepairRequest (get_count (resources s) ''repair_crews'') (crew_shortfall s) (time_step s),
        i_priority = 8\<rparr>] @ milestone_intents s" by blast
  define req where "req = \<lparr>i_type = ''repair_request'',
        i_payload = RepairRequest (get_count (resources s) ''repair_crews'') (crew_shortfall s) (time_step s),
        i_priority = 8\<rparr>"
  define b1 where "b1 = bus_send ''RebuildAgent'' clk ''repair_status'' st 6 b"
  have act: "rebuild_act clk s b = rebuild_execute clk (milestone_intents s) (rebuild_request clk req s b1)"
    by (simp add: rebuild_act_def d req_def b1_def)
  from milestone_execute(2)[of clk s "rebuild_request clk req s b1"] obtain extra where
    e: "messages (snd (rebuild_act clk s b)) = messages (snd (rebuild_request clk req s b1)) @ extra"
    unfolding act by blast
  have f: "fst (rebuild_act clk s b) = fst (rebuild_request clk req s b1)"
    unfolding act by (rule milestone_execute(1))
  have p: "i_payload req = RepairRequest (get_count (resources s) ''repair_crews'') (crew_shortfall s) (time_step s)"
    "i_priority req = 8" by (simp_all add: req_def)
  have l: "length (messages b1) = length (messages b) + 1"
    by (simp add: b1_def messages_bus_send)
  from p l f e show ?thesis by blast
qed

lemma struck_resources:
  "get_count (resources struck) ''ambulances'' = 3"
  "get_count (resources struck) ''drones'' = 1"
  "get_count (resources struck) ''medical_kits'' = 20"
  "get_count (resources struck) ''repair_crews'' = 1"
  "get_count (resources struck) ''food_packs'' = 30"
  by (simp_all add: struck_def trigger_disaster_def Let_def random_resources_def
        rand_between_def calm_trigger_def get_count_def)

lemma rescued_resources: "resources rescued = resources struck"
  by (simp add: rescued_def save_victims_def Let_def)

lemma rebuilding_resources:
  "get_count (resources rebuilding) k = max 0 (get_count (resources struck) k)"
  by (simp add: rebuilding_def step_env_def update_rescued enforce_non_negative_def
        rescued_resources get_count_def split: option.splits)

lemma rescued_time: "time_step rescued = 0"
  by (simp add: rescued_def save_victims_def Let_def struck_def trigger_disaster_def)

lemma rebuilding_time: "time_step rebuilding = 1"
  by (simp add: rebuilding_def step_env_def update_rescued enforce_non_negative_def
        rescued_time)

text \<open>
  C7. In the rebuild phase with fewer than two crews, \<open>act\<close> answers its own
  \<open>repair_request\<close> (the second message of the tick). With at least 5 food packs it
  recruits \<open>add = min(shortfall, food div 5)\<close> crews, at least one: \<open>use_resource\<close> takes
  exactly \<open>5 \<times> add\<close> food packs, the crew count rises by \<open>add\<close>, and \<open>repair_alloc\<close> goes
  out at the request's priority 8. With fewer than 5 food packs nothing changes in the
  environment and \<open>repair_blocked\<close> goes out at priority 6.
\<close>

theorem rebuild_act_recruits:
  assumes "phase s = Rebuild"
    and "get_count (resources s) ''repair_crews'' < MIN_CREWS_FOR_REBUILD"
  shows "(let food = get_count (resources s) ''food_packs'';
              crews = get_count (resources s) ''repair_crews'';
              add = crews_from_food s;
              s' = fst (rebuild_act clk s b);
              m = messages (snd (rebuild_act clk s b)) ! (length (messages b) + 1)
          in if FOOD_COST_PER_CREW \<le> food
             then 1 \<le> add
                \<and> get_count (resources s') ''repair_crews'' = crews + add
                \<and> get_count (resources s') ''food_packs'' = food - add * FOOD_COST_PER_CREW
                \<and> get_count (resources_used s') ''food_packs''
                     = get_count (resources_used s) ''food_packs'' + add * FOOD_COST_PER_CREW
                \<and> msg_type m = ''repair_alloc''
                \<and> payload m = RepairAlloc add (add * FOOD_COST_PER_CREW) (time_step s)
                \<and> priority m = 8
             else s' = s
                \<and> msg_type m = ''repair_blocked''
                \<and> payload m = RepairBlocked (crew_shortfall s) food
                                  (crew_shortfall s * FOOD_COST_PER_CREW) (time_step s)
                \<and> priority m = 6)"
proof -
  from rebuild_act_shape[OF assms, of b clk] obtain b1 extra req where
    q: "i_payload req = RepairRequest (get_count (resources s) ''repair_crews'') (crew_shortfall s) (time_step s)"
       "i_priority req = 8"
       "length (messages b1) = length (messages b) + 1"
       "fst (rebuild_act clk s b) = fst (rebuild_request clk req s b1)"
       "messages (snd (rebuild_act clk s b)) = messages (snd (rebuild_request clk req s b1)) @ extra"
    by blast
  have sf: "0 < crew_shortfall s" using assms(2) by (simp add: crew_shortfall_def)
  show ?thesis
  proof (cases "FOOD_COST_PER_CREW \<le> get_count (resources s) ''food_packs''")
    case True
    have "0 < get_count (resources s) ''food_packs'' div FOOD_COST_PER_CREW"
      using True by (simp add: FOOD_COST_PER_CREW_def pos_imp_zdiv_pos_iff)
    then have "1 \<le> crews_from_food s" using sf by (simp add: crews_from_food_def)
    then show ?thesis using True q(2,3,4,5)
      by (simp add: Let_def rebuild_request_alloc[OF q(1) sf True] crews_from_food_def
            messages_bus_send get_count_upd nth_append)
  next
    case False
    then have f: "get_count (resources s) ''food_packs'' < FOOD_COST_PER_CREW" by simp
    show ?thesis using False q(2,3,4,5)
      by (simp add: Let_def rebuild_request_blocked[OF q(1) f] messages_bus_send nth_append)
  qed
qed

theorem rebuild_act_recruits_witness:
  "phase rebuilding = Rebuild
   \<and> get_count (resources rebuilding) ''repair_crews'' < MIN_CREWS_FOR_REBUILD
   \<and> FOOD_COST_PER_CREW \<le> get_count (resources rebuilding) ''food_packs''
   \<and> get_count (resources (fst (rebuild_act idle_clock rebuilding empty_bus))) ''repair_crews'' = 2
   \<and> get_count (resources (fst (rebuild_act idle_clock rebuilding empty_bus))) ''food_packs'' = 25
   \<and> msg_type (messages (snd (rebuild_act idle_clock rebuilding empty_bus)) ! 1) = ''repair_alloc''
   \<and> payload (messages (snd (rebuild_act idle_clock rebuilding empty_bus)) ! 1) = RepairAlloc 1 5 1
   \<and> priority (messages (snd (rebuild_act idle_clock rebuilding empty_bus)) ! 1) = 8"
proof -
  have p: "phase rebuilding = Rebuild" by (rule rebuilding_facts)
  have c: "get_count (resources rebuilding) ''repair_crews'' < MIN_CREWS_FOR_REBUILD"
    by (simp add: rebuilding_resources struck_resources MIN_CREWS_FOR_REBUILD_def)
  have a: "crews_from_food rebuilding = 1" "crew_shortfall rebuilding = 1"
    by (simp_all add: crews_from_food_def crew_shortfall_def rebuilding_resources struck_resources
          MIN_CREWS_FOR_REBUILD_def FOOD_COST_PER_CREW_def)
  have e: "length (messages empty_bus) = 0" by (simp add: empty_bus_def new_bus_def)
  show ?thesis
    using rebuild_act_recruits [OF p c, of idle_clock empty_bus] p c
    by (simp add: Let_def a e rebuilding_resources struck_resources rebuilding_time
          FOOD_COST_PER_CREW_def)
qed

section \<open>UtilityAgent: consumption and rescue within bounds\<close>

lemma use_resource_fields:
  assumes "0 \<le> a" "a \<le> get_count (resources s) name"
  shows "victims (if 0 < a then snd (use_resource name a s) else s) = victims s"
    "victims_saved (if 0 < a then snd (use_resource name a s) else s) = victims_saved s"
    "get_count (resources (if 0 < a then snd (use_resource name a s) else s)) k
       = (if k = name then get_count (resources s) name - a else get_count (resources s) k)"
  using assms by (cases "0 < a"; simp add: use_resource_within get_count_upd)+

lemma consume_rescue_alloc:
  assumes "0 \<le> k" "k \<le> get_count (resources s) ''medical_kits''"
      and "0 \<le> f" "f \<le> get_count (resources s) ''food_packs''"
  defines "s1 \<equiv> consume_alloc [(''ambulances'', 0), (''drones'', 0), (''medical_kits'', k), (''food_packs'', f)] s"
  shows "victims s1 = victims s" "victims_saved s1 = victims_saved s"
    "get_count (resources s1) ''medical_kits'' = get_count (resources s) ''medical_kits'' - k"
    "get_count (resources s1) ''food_packs'' = get_count (resources s) ''food_packs'' - f"
    "get_count (resources s1) ''ambulances'' = get_count (resources s) ''ambulances''"
    "get_count (resources s1) ''drones'' = get_count (resources s) ''drones''"
proof -
  let ?s0 = "if 0 < k then snd (use_resource ''medical_kits'' k s) else s"
  have s1: "s1 = (if 0 < f then snd (use_resource ''food_packs'' f ?s0) else ?s0)"
    by (simp add: s1_def)
  note a = use_resource_fields[OF assms(1,2)]
  have f0: "f \<le> get_count (resources ?s0) ''food_packs''"
    using assms(4) by (simp only: a(3)) simp
  note b = use_resource_fields[OF assms(3) f0]
  show "victims s1 = victims s" "victims_saved s1 = victims_saved s"
    "get_count (resources s1) ''medical_kits'' = get_count (resources s) ''medical_kits'' - k"
    "get_count (resources s1) ''food_packs'' = get_count (resources s) ''food_packs'' - f"
    "get_count (resources s1) ''ambulances'' = get_count (resources s) ''ambulances''"
    "get_count (resources s1) ''drones'' = get_count (resources s) ''drones''"
    unfolding s1 by (simp_all only: a b) simp_all
qed
lemma ceil_div_pos: "0 < v \<Longrightarrow> 0 < c \<Longrightarrow> 1 \<le> (v + c - 1) div c" for v c :: int
  using pos_imp_zdiv_pos_iff[of c "v + c - 1"] by simp

lemma utility_decide_rescue:
  assumes "phase s = Response" "0 < victims s" "0 < potential_saved s"
  shows "utility_decide s st =
     ([\<lparr>i_type = ''rescue'',
        i_payload = Rescue [(''ambulances'', 0), (''drones'', 0),
                            (''medical_kits'', kits_to_use s), (''food_packs'', food_to_use s)]
                      (min (potential_saved s) (victims s)) (max 0 (victims s - potential_saved s))
                      [(''ambulances'', get_count (resources s) ''ambulances''),
                       (''drones'', get_count (resources s) ''drones''),
                       (''medical_kits'', get_count (resources s) ''medical_kits''),
                       (''food_packs'', get_count (resources s) ''food_packs'')]
                      (time_step s) None,
        i_priority = 5\<rparr>], st)"
  using assms
  by (simp add: utility_decide_def Let_def potential_saved_def kits_to_use_def food_to_use_def)

lemma utility_decide_other:
  assumes "\<not> (phase s = Response \<and> 0 < victims s \<and> 0 < potential_saved s)"
  shows "fst (utility_decide s st) = [] \<or>
         (\<exists>pl. fst (utility_decide s st) = [\<lparr>i_type = ''status'', i_payload = pl, i_priority = 1\<rparr>])"
  using assms
  by (auto simp: utility_decide_def Let_def potential_saved_def)

lemma utility_act_other:
  assumes "\<not> (phase s = Response \<and> 0 < victims s \<and> 0 < potential_saved s)"
  shows "fst (utility_act clk s b st) = s"
    "list_all (\<lambda>m. msg_type m \<noteq> ''rescue'')
        (drop (length (messages b)) (messages (fst (snd (utility_act clk s b st)))))"
  using utility_decide_other[OF assms, where st = st]
  by (cases "utility_decide s st"; auto simp: utility_act_def messages_bus_send)+

lemma throughput_pos:
  assumes "env_inv s" "0 < victims s" "0 < potential_saved s"
  shows "0 \<le> kits_to_use s" "kits_to_use s \<le> get_count (resources s) ''medical_kits''" "kits_to_use s \<le> 5"
    "0 \<le> food_to_use s" "food_to_use s \<le> get_count (resources s) ''food_packs''" "food_to_use s \<le> 3"
    "0 < throughput s"
proof -
  have nn: "0 \<le> get_count (resources s) ''ambulances''" "0 \<le> get_count (resources s) ''drones''"
    "0 \<le> get_count (resources s) ''medical_kits''" "0 \<le> get_count (resources s) ''food_packs''"
    using assms(1) by (simp_all add: env_inv_def nonneg_map_def)
  have c: "1 \<le> (victims s + MEDICAL_KIT_CAPACITY - 1) div MEDICAL_KIT_CAPACITY"
    "1 \<le> (victims s + FOOD_PACK_CAPACITY - 1) div FOOD_PACK_CAPACITY"
    using assms(2) by (simp_all add: ceil_div_pos MEDICAL_KIT_CAPACITY_def FOOD_PACK_CAPACITY_def)
  show k: "0 \<le> kits_to_use s" "kits_to_use s \<le> get_count (resources s) ''medical_kits''" "kits_to_use s \<le> 5"
    and f: "0 \<le> food_to_use s" "food_to_use s \<le> get_count (resources s) ''food_packs''" "food_to_use s \<le> 3"
    using nn c by (simp_all add: kits_to_use_def food_to_use_def)
  have k1: "0 < get_count (resources s) ''medical_kits'' \<Longrightarrow> 1 \<le> kits_to_use s"
    using c by (simp add: kits_to_use_def)
  have f1: "0 < get_count (resources s) ''food_packs'' \<Longrightarrow> 1 \<le> food_to_use s"
    using c by (simp add: food_to_use_def)
  have some: "0 < get_count (resources s) ''ambulances'' \<or> 0 < get_count (resources s) ''drones''
      \<or> 0 < get_count (resources s) ''medical_kits'' \<or> 0 < get_count (resources s) ''food_packs''"
  proof (rule ccontr)
    assume "\<not> ?thesis"
    with nn have "get_count (resources s) ''ambulances'' = 0" "get_count (resources s) ''drones'' = 0"
      "get_count (resources s) ''medical_kits'' = 0" "get_count (resources s) ''food_packs'' = 0"
      by simp_all
    with assms(3) show False by (simp add: potential_saved_def)
  qed
  have parts: "0 \<le> get_count (resources s) ''ambulances'' * 500"
    "0 \<le> get_count (resources s) ''drones'' * 200"
    "0 \<le> kits_to_use s * 50" "0 \<le> food_to_use s * 30"
    using nn k f by simp_all
  from some show "0 < throughput s"
  proof (elim disjE)
    assume "0 < get_count (resources s) ''ambulances''"
    then have "0 < get_count (resources s) ''ambulances'' * 500" by simp
    with parts show ?thesis
      by (simp add: throughput_def AMBULANCE_CAPACITY_def DRONE_CAPACITY_def
            MEDICAL_KIT_CAPACITY_def FOOD_PACK_CAPACITY_def)
  next
    assume "0 < get_count (resources s) ''drones''"
    then have "0 < get_count (resources s) ''drones'' * 200" by simp
    with parts show ?thesis
      by (simp add: throughput_def AMBULANCE_CAPACITY_def DRONE_CAPACITY_def
            MEDICAL_KIT_CAPACITY_def FOOD_PACK_CAPACITY_def)
  next
    assume "0 < get_count (resources s) ''medical_kits''"
    then have "0 < kits_to_use s * 50" using k1 by simp
    with parts show ?thesis
      by (simp add: throughput_def AMBULANCE_CAPACITY_def DRONE_CAPACITY_def
            MEDICAL_KIT_CAPACITY_def FOOD_PACK_CAPACITY_def)
  next
    assume "0 < get_count (resources s) ''food_packs''"
    then have "0 < food_to_use s * 30" using f1 by simp
    with parts show ?thesis
      by (simp add: throughput_def AMBULANCE_CAPACITY_def DRONE_CAPACITY_def
            MEDICAL_KIT_CAPACITY_def FOOD_PACK_CAPACITY_def)
  qed
qed

lemma utility_act_rescue:
  fixes clk b st
  assumes "env_inv s" "phase s = Response" "0 < victims s" "0 < potential_saved s"
  defines "s' \<equiv> fst (utility_act clk s b st)"
  defines "saved \<equiv> min (throughput s) (victims s)"
  shows "victims s' = victims s - saved" "victims_saved s' = victims_saved s + saved"
    "get_count (resources s') ''medical_kits'' = get_count (resources s) ''medical_kits'' - kits_to_use s"
    "get_count (resources s') ''food_packs'' = get_count (resources s) ''food_packs'' - food_to_use s"
    "get_count (resources s') ''ambulances'' = get_count (resources s) ''ambulances''"
    "get_count (resources s') ''drones'' = get_count (resources s) ''drones''"
    "list_all (\<lambda>m. payload_actual_saved (payload m) = Some saved)
        (drop (length (messages b)) (messages (fst (snd (utility_act clk s b st)))))"
proof -
  note t = throughput_pos[OF assms(1,3,4)]
  let ?alloc = "[(''ambulances'', 0), (''drones'', 0),
                 (''medical_kits'', kits_to_use s), (''food_packs'', food_to_use s)]"
  let ?s1 = "consume_alloc ?alloc s"
  note c = consume_rescue_alloc[OF t(1,2,4,5)]
  define ex where "ex = min (potential_saved s) (victims s)"
  define rm where "rm = max 0 (victims s - potential_saved s)"
  define ac where ac: "ac = [(''ambulances'', get_count (resources s) ''ambulances''),
                       (''drones'', get_count (resources s) ''drones''),
                       (''medical_kits'', get_count (resources s) ''medical_kits''),
                       (''food_packs'', get_count (resources s) ''food_packs'')]"
  have d: "utility_decide s st = ([\<lparr>i_type = ''rescue'', i_payload = Rescue ?alloc ex rm ac (time_step s) None, i_priority = 5\<rparr>], st)"
    unfolding ex_def rm_def ac by (rule utility_decide_rescue[OF assms(2,3,4)])
  have vts: "alloc_get ac ''ambulances'' * AMBULANCE_CAPACITY + alloc_get ac ''drones'' * DRONE_CAPACITY
           + alloc_get ?alloc ''medical_kits'' * MEDICAL_KIT_CAPACITY
           + alloc_get ?alloc ''food_packs'' * FOOD_PACK_CAPACITY = throughput s"
    by (simp add: ac alloc_get_def throughput_def)
  have r: "utility_rescue (Rescue ?alloc ex rm ac (time_step s) None) s
         = (Rescue ?alloc ex rm ac (time_step s) (Some (min (throughput s) (victims ?s1))),
            ?s1\<lparr>victims := max 0 (victims ?s1 - min (throughput s) (victims ?s1)),
                 victims_saved := victims_saved ?s1 + min (throughput s) (victims ?s1)\<rparr>)"
    using t(7)
    by (simp add: utility_rescue_def payload_allocation_def payload_active_def Let_def vts
          save_victims_def set_actual_saved_def del: consume_alloc.simps)
  have act: "utility_act clk s b st =
      (?s1\<lparr>victims := max 0 (victims ?s1 - min (throughput s) (victims ?s1)),
           victims_saved := victims_saved ?s1 + min (throughput s) (victims ?s1)\<rparr>,
       bus_send ''UtilityAgent'' clk ''rescue''
         (Rescue ?alloc ex rm ac (time_step s) (Some (min (throughput s) (victims ?s1)))) 5 b, st)"
    by (simp add: utility_act_def d r del: consume_alloc.simps)
  show "victims s' = victims s - saved" "victims_saved s' = victims_saved s + saved"
    "get_count (resources s') ''medical_kits'' = get_count (resources s) ''medical_kits'' - kits_to_use s"
    "get_count (resources s') ''food_packs'' = get_count (resources s) ''food_packs'' - food_to_use s"
    "get_count (resources s') ''ambulances'' = get_count (resources s) ''ambulances''"
    "get_count (resources s') ''drones'' = get_count (resources s) ''drones''"
    "list_all (\<lambda>m. payload_actual_saved (payload m) = Some saved)
        (drop (length (messages b)) (messages (fst (snd (utility_act clk s b st)))))"
    unfolding s'_def saved_def act
    using assms(3) t(7)
    by (simp_all add: c messages_bus_send payload_actual_saved_def del: consume_alloc.simps)
qed

text \<open>
  C6. In one \<open>act\<close> of the UtilityAgent on a reachable environment, the medical kits
  consumed are between 0 and \<open>min(5, available)\<close>, the food packs between 0 and
  \<open>min(3, available)\<close>; the victims saved are between 0 and the victims present before,
  \<open>victims_saved\<close> grows by exactly that number, and the \<open>rescue\<close> message carries it as
  \<open>actual_victims_saved\<close>, the value \<open>save_victims\<close> returned.
\<close>

theorem utility_act_saturation:
  assumes "reachable s"
  shows "(let s' = fst (utility_act clk s b st);
              b' = fst (snd (utility_act clk s b st));
              kits = get_count (resources s) ''medical_kits'';
              food = get_count (resources s) ''food_packs'';
              kits_used = kits - get_count (resources s') ''medical_kits'';
              food_used = food - get_count (resources s') ''food_packs'';
              saved = victims s - victims s'
          in 0 \<le> kits_used \<and> kits_used \<le> kits \<and> kits_used \<le> 5
           \<and> 0 \<le> food_used \<and> food_used \<le> food \<and> food_used \<le> 3
           \<and> 0 \<le> saved \<and> saved \<le> victims s
           \<and> victims_saved s' = victims_saved s + saved
           \<and> list_all (\<lambda>m. msg_type m = ''rescue'' \<longrightarrow> payload_actual_saved (payload m) = Some saved)
                (drop (length (messages b)) (messages b')))"
proof -
  from assms have i: "env_inv s" by (rule reachable_inv)
  then have nn: "0 \<le> victims s" "0 \<le> get_count (resources s) ''medical_kits''"
    "0 \<le> get_count (resources s) ''food_packs''"
    by (simp_all add: env_inv_def nonneg_map_def)
  show ?thesis
  proof (cases "phase s = Response \<and> 0 < victims s \<and> 0 < potential_saved s")
    case True
    then have p: "phase s = Response" "0 < victims s" "0 < potential_saved s" by simp_all
    note t = throughput_pos[OF i p(2,3)]
    note r = utility_act_rescue[OF i p, where clk = clk and b = b and st = st]
    have "list_all (\<lambda>m. msg_type m = ''rescue'' \<longrightarrow>
             payload_actual_saved (payload m) = Some (min (throughput s) (victims s)))
           (drop (length (messages b)) (messages (fst (snd (utility_act clk s b st)))))"
      using r(7) by (auto simp: list_all_iff)
    then show ?thesis using t p(2)
      by (simp add: Let_def r(1,2,3,4))
  next
    case False
    note o = utility_act_other[OF False, where clk = clk and b = b and st = st]
    have "list_all (\<lambda>m. msg_type m = ''rescue'' \<longrightarrow> payload_actual_saved (payload m) = Some 0)
           (drop (length (messages b)) (messages (fst (snd (utility_act clk s b st)))))"
      using o(2) by (auto simp: list_all_iff)
    then show ?thesis using nn by (simp add: Let_def o(1))
  qed
qed

theorem utility_act_saturation_witness:
  "reachable struck
   \<and> get_count (resources struck) ''medical_kits''
       - get_count (resources (fst (utility_act idle_clock struck empty_bus
                                      \<lparr>deployed_resources = []\<rparr>))) ''medical_kits'' = 5
   \<and> get_count (resources struck) ''food_packs''
       - get_count (resources (fst (utility_act idle_clock struck empty_bus
                                      \<lparr>deployed_resources = []\<rparr>))) ''food_packs'' = 3
   \<and> victims struck - victims (fst (utility_act idle_clock struck empty_bus
                                      \<lparr>deployed_resources = []\<rparr>)) = 2040
   \<and> victims_saved (fst (utility_act idle_clock struck empty_bus \<lparr>deployed_resources = []\<rparr>))
       = victims_saved struck + 2040
   \<and> 2040 \<le> victims struck"
proof -
  have v: "victims struck = 271039"
    by (simp add: struck_def trigger_earthquake_fields earthquake_victims)
  have p: "phase struck = Response" "0 < victims struck" "0 < potential_saved struck"
    by (simp_all add: struck_facts v potential_saved_def struck_resources
          AMBULANCE_CAPACITY_def DRONE_CAPACITY_def MEDICAL_KIT_CAPACITY_def FOOD_PACK_CAPACITY_def)
  have k: "kits_to_use struck = 5" "food_to_use struck = 3"
    by (simp_all add: kits_to_use_def food_to_use_def struck_resources v
          MEDICAL_KIT_CAPACITY_def FOOD_PACK_CAPACITY_def)
  have t: "throughput struck = 2040"
    by (simp add: throughput_def k struck_resources
          AMBULANCE_CAPACITY_def DRONE_CAPACITY_def MEDICAL_KIT_CAPACITY_def FOOD_PACK_CAPACITY_def)
  note r = utility_act_rescue[OF reachable_inv[OF struck_reachable] p,
             where clk = idle_clock and b = empty_bus and st = "\<lparr>deployed_resources = []\<rparr>"]
  show ?thesis
    using utility_act_saturation [OF struck_reachable, of idle_clock empty_bus
            "\<lparr>deployed_resources = []\<rparr>"] struck_reachable
    by (simp add: Let_def r(1,2,3,4) k t v)
qed

section \<open>RebuildAgent: milestones\<close>

lemma first_milestone_band:
  "first_milestone p [25, 50, 75, 90] = Some m
     \<longleftrightarrow> m \<in> set [25, 50, 75, 90] \<and> real_of_int m \<le> p \<and> p < real_of_int m + 5"
  by auto

lemma milestones_of_decide:
  "milestones_of (rebuild_decide obs)
     = (if phase obs = Rebuild
        then (case first_milestone (rebuild_progress obs) [25, 50, 75, 90] of
                None \<Rightarrow> []
              | Some m \<Rightarrow> [Milestone m (py_round2 (rebuild_progress obs)) (time_step obs)])
        else [])"
  by (cases "first_milestone (rebuild_progress obs) [25, 50, 75, 90]")
     (simp_all add: milestones_of_def rebuild_decide_def Let_def del: first_milestone.simps)

text \<open>
  C9, as amended. \<open>decide\<close> keeps no memory of the milestones it has announced. On every
  tick of the rebuild phase it emits one \<open>milestone\<close> intent for \<open>m\<close> exactly when the
  observed progress lies in \<open>[m, m + 5)\<close> for an \<open>m\<close> of 25, 50, 75, 90, and none otherwise:
  a band is announced on each tick that progress spends in it.
\<close>

theorem milestone_every_tick_in_band:
  "milestones_of (rebuild_decide obs)
     = (if phase obs = Rebuild
        then (case first_milestone (rebuild_progress obs) [25, 50, 75, 90] of
                None \<Rightarrow> []
              | Some m \<Rightarrow> [Milestone m (py_round2 (rebuild_progress obs)) (time_step obs)])
        else [])
   \<and> (first_milestone (rebuild_progress obs) [25, 50, 75, 90] = Some m
        \<longleftrightarrow> m \<in> set [25, 50, 75, 90] \<and> real_of_int m \<le> rebuild_progress obs
            \<and> rebuild_progress obs < real_of_int m + 5)"
  using milestones_of_decide[of obs] first_milestone_band[of "rebuild_progress obs" m]
  by simp

lemma update_quiet_response:
  assumes "phase s = Response" "seismic_level s = 1" "victims s = 0"
  shows "update quiet_update s =
     Inr (enforce_non_negative
       (s\<lparr>time_step := time_step s + 1,
          aftershock := False, roads_blocked := False, seismic_level := 19 / 20,
          phase := Rebuild, rebuild_progress := 0,
          env_stats := (env_stats s)\<lparr>total_time_steps := total_time_steps (env_stats s) + 1,
                          stat_victims_saved := victims_saved s\<rparr>\<rparr>))"
  by (simp add: update_def update_response_def Let_def assms quiet_update_def
        aftershock_factor_def road_block_chance_def)

lemma get_count_enforce:
  "get_count (resources (enforce_non_negative s)) k = max 0 (get_count (resources s) k)"
  by (simp add: enforce_non_negative_def get_count_def split: option.splits)

lemma update_in_rebuild:
  assumes "phase s = Rebuild"
  shows "update rnd s = Inr (enforce_non_negative (update_rebuild rnd
            (s\<lparr>time_step := time_step s + 1,
               env_stats := (env_stats s)\<lparr>total_time_steps := total_time_steps (env_stats s) + 1\<rparr>\<rparr>)))"
  using assms by (simp add: update_def Let_def)

lemma update_rebuild_below:
  assumes "rebuild_progress s + rebuild_increment rnd s < 100"
  shows "phase (update_rebuild rnd s) = phase s"
    "rebuild_progress (update_rebuild rnd s) = rebuild_progress s + rebuild_increment rnd s"
    "time_step (update_rebuild rnd s) = time_step s"
    "resources (update_rebuild rnd s) = (resources s)(''repair_crews'' \<mapsto>
        max 0 (get_count (resources s) ''repair_crews''
               - min (get_count (resources s) ''repair_crews'') (max 0 \<lfloor>rebuild_increment rnd s / 3\<rfloor>)))"
proof -
  have n: "\<not> rebuild_required \<le> min 100 (rebuild_progress s + rebuild_increment rnd s)"
    using assms by (simp add: rebuild_required_def)
  have m: "min 100 (rebuild_progress s + rebuild_increment rnd s) = rebuild_progress s + rebuild_increment rnd s"
    using assms by simp
  show "phase (update_rebuild rnd s) = phase s"
    "rebuild_progress (update_rebuild rnd s) = rebuild_progress s + rebuild_increment rnd s"
    "time_step (update_rebuild rnd s) = time_step s"
    "resources (update_rebuild rnd s) = (resources s)(''repair_crews'' \<mapsto>
        max 0 (get_count (resources s) ''repair_crews''
               - min (get_count (resources s) ''repair_crews'') (max 0 \<lfloor>rebuild_increment rnd s / 3\<rfloor>)))"
    unfolding update_rebuild_def Let_def rebuild_increment_def[symmetric]
    using n m by simp_all
qed

lemma increment_shift:
  "rebuild_increment rnd (s\<lparr>time_step := t, env_stats := st\<rparr>) = rebuild_increment rnd s"
  by (simp add: rebuild_increment_def)

lemma step_rebuild:
  assumes "phase s = Rebuild" "rebuild_progress s + rebuild_increment rnd s < 100"
  shows "phase (step_env rnd s) = Rebuild"
    "rebuild_progress (step_env rnd s) = rebuild_progress s + rebuild_increment rnd s"
    "time_step (step_env rnd s) = time_step s + 1"
    "get_count (resources (step_env rnd s)) k =
       max 0 (if k = ''repair_crews''
              then max 0 (get_count (resources s) ''repair_crews''
                     - min (get_count (resources s) ''repair_crews'') (max 0 \<lfloor>rebuild_increment rnd s / 3\<rfloor>))
              else get_count (resources s) k)"
proof -
  let ?s1 = "s\<lparr>time_step := time_step s + 1,
               env_stats := (env_stats s)\<lparr>total_time_steps := total_time_steps (env_stats s) + 1\<rparr>\<rparr>"
  have b: "rebuild_progress ?s1 + rebuild_increment rnd ?s1 < 100"
    using assms(2) by (simp add: increment_shift)
  note u = update_rebuild_below[OF b]
  have st: "step_env rnd s = enforce_non_negative (update_rebuild rnd ?s1)"
    by (simp add: step_env_def update_in_rebuild[OF assms(1)])
  show "phase (step_env rnd s) = Rebuild"
    unfolding st by (simp add: enforce_non_negative_def u(1) assms(1))
  show "rebuild_progress (step_env rnd s) = rebuild_progress s + rebuild_increment rnd s"
    unfolding st by (simp add: enforce_non_negative_def u(2) increment_shift)
  show "time_step (step_env rnd s) = time_step s + 1"
    unfolding st by (simp add: enforce_non_negative_def u(3))
  show "get_count (resources (step_env rnd s)) k =
       max 0 (if k = ''repair_crews''
              then max 0 (get_count (resources s) ''repair_crews''
                     - min (get_count (resources s) ''repair_crews'') (max 0 \<lfloor>rebuild_increment rnd s / 3\<rfloor>))
              else get_count (resources s) k)"
    unfolding st get_count_enforce u(4) by (simp add: get_count_upd increment_shift)
qed

lemma struck_crews_facts:
  "phase struck_crews = Response" "seismic_level struck_crews = 1" "time_step struck_crews = 0"
  "get_count (resources struck_crews) ''repair_crews'' = 11"
  "get_count (resources struck_crews) ''drones'' = 0"
  by (simp_all add: struck_crews_def trigger_disaster_def Let_def init_env_def default_resources_def
        get_count_def)

lemma rescued_crews_facts:
  "phase rescued_crews = Response" "seismic_level rescued_crews = 1" "victims rescued_crews = 0"
  "time_step rescued_crews = 0" "resources rescued_crews = resources struck_crews"
  by (simp_all add: rescued_crews_def save_victims_def Let_def struck_crews_facts)

lemma rescued_crews_reachable: "reachable rescued_crews"
  unfolding rescued_crews_def struck_crews_def
  by (rule r_save) (rule r_trigger, rule r_init)

lemma rebuilding_crews_facts:
  "phase rebuilding_crews = Rebuild" "rebuild_progress rebuilding_crews = 0"
  "time_step rebuilding_crews = 1"
  "get_count (resources rebuilding_crews) ''repair_crews'' = 11"
  "get_count (resources rebuilding_crews) ''drones'' = 0"
proof -
  note u = update_quiet_response[OF rescued_crews_facts(1,2,3)]
  show "phase rebuilding_crews = Rebuild" "rebuild_progress rebuilding_crews = 0"
    "time_step rebuilding_crews = 1"
    unfolding rebuilding_crews_def step_env_def u
    by (simp_all add: enforce_non_negative_def rescued_crews_facts)
  show "get_count (resources rebuilding_crews) ''repair_crews'' = 11"
    "get_count (resources rebuilding_crews) ''drones'' = 0"
    unfolding rebuilding_crews_def step_env_def u
    by (simp_all add: get_count_enforce rescued_crews_facts struck_crews_facts)
qed

lemma first_increment: "rebuild_increment (quiet_update\<lparr>factor_draw := 37 / 44\<rparr>) rebuilding_crews = 25"
  by (simp add: rebuild_increment_def rebuilding_crews_facts rebuild_factor_per_crew_def)

lemma first_tick_facts:
  "phase first_tick = Rebuild" "rebuild_progress first_tick = 25" "time_step first_tick = 2"
  "get_count (resources first_tick) ''repair_crews'' = 3"
  "get_count (resources first_tick) ''drones'' = 0"
proof -
  have b: "rebuild_progress rebuilding_crews
             + rebuild_increment (quiet_update\<lparr>factor_draw := 37 / 44\<rparr>) rebuilding_crews < 100"
    by (simp add: first_increment rebuilding_crews_facts)
  note s = step_rebuild[OF rebuilding_crews_facts(1) b]
  show "phase first_tick = Rebuild" "rebuild_progress first_tick = 25" "time_step first_tick = 2"
    "get_count (resources first_tick) ''repair_crews'' = 3"
    "get_count (resources first_tick) ''drones'' = 0"
    unfolding first_tick_def s by (simp_all add: first_increment rebuilding_crews_facts)
qed

lemma second_increment: "rebuild_increment (quiet_update\<lparr>factor_draw := 0\<rparr>) first_tick = 24 / 5"
  by (simp add: rebuild_increment_def first_tick_facts rebuild_factor_per_crew_def)

lemma second_tick_facts:
  "phase second_tick = Rebuild" "rebuild_progress second_tick = 149 / 5" "time_step second_tick = 3"
proof -
  have b: "rebuild_progress first_tick
             + rebuild_increment (quiet_update\<lparr>factor_draw := 0\<rparr>) first_tick < 100"
    by (simp add: second_increment first_tick_facts)
  note s = step_rebuild[OF first_tick_facts(1) b]
  show "phase second_tick = Rebuild" "rebuild_progress second_tick = 149 / 5" "time_step second_tick = 3"
    unfolding second_tick_def s by (simp_all add: second_increment first_tick_facts)
qed

lemma first_tick_reachable: "reachable first_tick"
  unfolding first_tick_def rebuilding_crews_def
  by (intro reachable_step rescued_crews_reachable)

text \<open>
  Counterexample to C9: two consecutive ticks of one rebuild phase, progress 25 and then
  29.8, and \<open>decide\<close> emits the milestone of band 25 on both.
\<close>

theorem milestone_repeats_in_band:
  "reachable first_tick \<and> phase first_tick = Rebuild
   \<and> second_tick = step_env (quiet_update\<lparr>factor_draw := 0\<rparr>) first_tick
   \<and> phase second_tick = Rebuild
   \<and> milestones_of (rebuild_decide first_tick) = [Milestone 25 25 2]
   \<and> milestones_of (rebuild_decide second_tick) = [Milestone 25 (149 / 5) 3]"
proof -
  have r: "py_round2 25 = 25" "py_round2 (149 / 5) = 149 / 5"
    by (simp_all add: py_round2_def Let_def)
  have "milestones_of (rebuild_decide first_tick) = [Milestone 25 25 2]"
    by (simp add: milestones_of_def rebuild_decide_def Let_def first_tick_facts r
          MIN_CREWS_FOR_REBUILD_def)
  moreover have "milestones_of (rebuild_decide second_tick) = [Milestone 25 (149 / 5) 3]"
    by (simp add: milestones_of_decide second_tick_facts r)
  moreover have "second_tick = step_env (quiet_update\<lparr>factor_draw := 0\<rparr>) first_tick"
    by (rule second_tick_def)
  moreover note first_tick_reachable first_tick_facts(1) second_tick_facts(1)
  ultimately show ?thesis by blast
qed


section \<open>GoalBasedAgent: the plan state across phases\<close>

lemma trigger_fields:
  "time_step (trigger_disaster rnd sc intensity res_arg s) = 0"
  "10 \<le> victims (trigger_disaster rnd sc intensity res_arg s)"
  by (simp_all add: trigger_disaster_def Let_def count_victims_def)

text \<open>
  C8 fails on the code. Outside the response phase \<open>DroneReconAgent.decide\<close> and
  \<open>UtilityAgent.decide\<close> reset their private state, \<open>GoalBasedAgent.decide\<close> returns with
  its plan and its last-plan tick untouched. A plan made at tick 6 of one response phase
  therefore silences the agent at tick 0 of the next one, where the environment is in
  the response phase with at least 10 victims.
\<close>

theorem goal_agent_keeps_stale_plan:
  "goal_decide (obs\<lparr>phase := Rebuild\<rparr>) \<lparr>current_plan = Some pl, last_plan_step = 6\<rparr>
     = Inr ([], \<lparr>current_plan = Some pl, last_plan_step = 6\<rparr>)
   \<and> phase (trigger_disaster rnd sc intensity res_arg obs) = Response
   \<and> time_step (trigger_disaster rnd sc intensity res_arg obs) = 0
   \<and> 10 \<le> victims (trigger_disaster rnd sc intensity res_arg obs)
   \<and> goal_decide (trigger_disaster rnd sc intensity res_arg obs)
        \<lparr>current_plan = Some pl, last_plan_step = 6\<rparr>
     = Inr ([], \<lparr>current_plan = Some pl, last_plan_step = 6\<rparr>)
   \<and> snd (drone_decide (obs\<lparr>phase := Rebuild\<rparr>) dst) = drone_init
   \<and> deployed_resources (snd (utility_decide (obs\<lparr>phase := Rebuild\<rparr>) ust)) = []"
proof -
  have "goal_decide (trigger_disaster rnd sc intensity res_arg obs)
          \<lparr>current_plan = Some pl, last_plan_step = 6\<rparr>
        = Inr ([], \<lparr>current_plan = Some pl, last_plan_step = 6\<rparr>)"
    unfolding goal_decide_def by (simp add: phase_trigger trigger_fields)
  moreover have "snd (drone_decide (obs\<lparr>phase := Rebuild\<rparr>) dst) = drone_init"
    by (cases dst) (simp add: drone_decide_def drone_init_def)
  ultimately show ?thesis
    by (simp add: goal_decide_def utility_decide_def phase_trigger trigger_fields)
qed

section \<open>GoalBasedAgent: shortest routes\<close>

subsection \<open>The search loop\<close>

lemma walk_nonneg:
  assumes "nonneg_weights adj"
  shows "walk adj av start p d \<Longrightarrow> 0 \<le> d"
proof (induction rule: walk.induct)
  case walk_start
  show ?case by simp
next
  case (walk_step p d nb w blk)
  from assms walk_step.hyps(2) have "0 \<le> w" unfolding nonneg_weights_def by blast
  with walk_step.IH show ?case by simp
qed

lemma frontier:
  assumes nn: "nonneg_weights adj" and inv: "loop_inv adj av start target pq visited"
  shows "walk adj av start q dq \<Longrightarrow>
           last q \<in> visited \<or> (\<exists>e \<in> set pq. fst e \<le> dq)"
proof (induction rule: walk.induct)
  case walk_start
  from inv have "start \<in> visited \<or> (\<exists>p. (0, start, p) \<in> set pq)"
    by (simp add: loop_inv_def)
  then show ?case by force
next
  case (walk_step q dq nb w blk)
  from nn walk_step.hyps(2) have w: "0 \<le> w" unfolding nonneg_weights_def by blast
  from walk_step.IH show ?case
  proof
    assume "\<exists>e \<in> set pq. fst e \<le> dq"
    then obtain e where "e \<in> set pq" "fst e \<le> dq" by blast
    with w have "e \<in> set pq" "fst e \<le> dq + w" by simp_all
    then show ?thesis by blast
  next
    assume v: "last q \<in> visited"
    with inv obtain dx where dx: "is_dist adj av start (last q) dx"
      and fr: "\<forall>y w blk. (y, w, blk) \<in> set (neighbours adj (last q)) \<and> \<not> (av \<and> blk) \<longrightarrow>
                 y \<in> visited \<or> (\<exists>p. (dx + w, y, p) \<in> set pq)"
      unfolding loop_inv_def by blast
    from dx walk_step.hyps(1) have le: "dx \<le> dq" unfolding is_dist_def by blast
    from fr walk_step.hyps(2,3) have "nb \<in> visited \<or> (\<exists>p. (dx + w, nb, p) \<in> set pq)" by blast
    then show ?thesis
    proof
      assume "nb \<in> visited" then show ?thesis by simp
    next
      assume "\<exists>p. (dx + w, nb, p) \<in> set pq"
      then obtain p where "(dx + w, nb, p) \<in> set pq" by blast
      moreover have "fst (dx + w, nb, p) \<le> dq + w" using le by simp
      ultimately show ?thesis by blast
    qed
  qed
qed

lemma Min_entry:
  fixes pq :: "pq_entry list"
  assumes "pq \<noteq> []"
  shows "Min (set pq) \<in> set pq" "\<And>e. e \<in> set pq \<Longrightarrow> fst (Min (set pq)) \<le> fst e"
proof -
  show "Min (set pq) \<in> set pq" using assms by (simp add: Min_in)
  fix e :: pq_entry assume "e \<in> set pq"
  then have "Min (set pq) \<le> e" by simp
  then show "fst (Min (set pq)) \<le> fst e"
    by (cases "Min (set pq)"; cases e) (auto simp: less_eq_prod_def)
qed

lemma popped_dist:
  assumes nn: "nonneg_weights adj" and inv: "loop_inv adj av start target pq visited"
    and ne: "pq \<noteq> []" and nv: "fst (snd (Min (set pq))) \<notin> visited"
  shows "is_dist adj av start (fst (snd (Min (set pq)))) (fst (Min (set pq)))"
    "walk adj av start (snd (snd (Min (set pq)))) (fst (Min (set pq)))"
    "last (snd (snd (Min (set pq)))) = fst (snd (Min (set pq)))"
proof -
  obtain d v p where e: "Min (set pq) = (d, v, p)" by (cases "Min (set pq)") auto
  from Min_entry(1)[OF ne] e have m: "(d, v, p) \<in> set pq" by simp
  with inv have wp: "walk adj av start p d" "last p = v" unfolding loop_inv_def by blast+
  have "d \<le> dq" if "walk adj av start q dq" "last q = v" for q dq
  proof -
    from frontier[OF nn inv that(1)] that(2) nv e
    obtain e' where "e' \<in> set pq" "fst e' \<le> dq" by auto
    with Min_entry(2)[OF ne, of e'] e show ?thesis by simp
  qed
  with wp show "is_dist adj av start (fst (snd (Min (set pq)))) (fst (Min (set pq)))"
    "walk adj av start (snd (snd (Min (set pq)))) (fst (Min (set pq)))"
    "last (snd (snd (Min (set pq)))) = fst (snd (Min (set pq)))"
    unfolding is_dist_def e by auto
qed

lemma in_pushes:
  "(d', y, p') \<in> set (pushes adj av vis (d, v, p))
     \<longleftrightarrow> (\<exists>w blk. (y, w, blk) \<in> set (neighbours adj v) \<and> y \<notin> vis \<and> \<not> (av \<and> blk)
                  \<and> d' = d + w \<and> p' = p @ [y])"
proof
  assume "(d', y, p') \<in> set (pushes adj av vis (d, v, p))"
  then obtain x where x: "x \<in> set (neighbours adj v)" "fst x \<notin> vis"
      "\<not> (av \<and> snd (snd x))" "(d', y, p') = (d + fst (snd x), fst x, p @ [fst x])"
    by (auto simp: pushes_def)
  then have "(y, fst (snd x), snd (snd x)) \<in> set (neighbours adj v)" by simp
  with x show "\<exists>w blk. (y, w, blk) \<in> set (neighbours adj v) \<and> y \<notin> vis \<and> \<not> (av \<and> blk)
                  \<and> d' = d + w \<and> p' = p @ [y]" by blast
next
  assume "\<exists>w blk. (y, w, blk) \<in> set (neighbours adj v) \<and> y \<notin> vis \<and> \<not> (av \<and> blk)
                  \<and> d' = d + w \<and> p' = p @ [y]"
  then obtain w blk where "(y, w, blk) \<in> set (neighbours adj v)" "y \<notin> vis" "\<not> (av \<and> blk)"
    "d' = d + w" "p' = p @ [y]" by blast
  then show "(d', y, p') \<in> set (pushes adj av vis (d, v, p))"
    unfolding pushes_def by (simp add: image_iff) blast
qed

lemma inv_pop_visited:
  assumes inv: "loop_inv adj av start target pq visited"
    and v: "fst (snd e) \<in> visited"
  shows "loop_inv adj av start target (remove1 e pq) visited"
  unfolding loop_inv_def
proof (intro conjI)
  show "\<forall>d v p. (d, v, p) \<in> set (remove1 e pq) \<longrightarrow> walk adj av start p d \<and> last p = v"
    using inv set_remove1_subset[of e pq] unfolding loop_inv_def by blast
  show "\<forall>x \<in> visited. \<exists>dx. is_dist adj av start x dx
          \<and> (\<forall>y w blk. (y, w, blk) \<in> set (neighbours adj x) \<and> \<not> (av \<and> blk) \<longrightarrow>
                 y \<in> visited \<or> (\<exists>p. (dx + w, y, p) \<in> set (remove1 e pq)))"
  proof
    fix x assume "x \<in> visited"
    with inv obtain dx where dx: "is_dist adj av start x dx"
      and fr: "\<forall>y w blk. (y, w, blk) \<in> set (neighbours adj x) \<and> \<not> (av \<and> blk) \<longrightarrow>
                 y \<in> visited \<or> (\<exists>p. (dx + w, y, p) \<in> set pq)"
      unfolding loop_inv_def by blast
    have "y \<in> visited \<or> (\<exists>p. (dx + w, y, p) \<in> set (remove1 e pq))"
      if "(y, w, blk) \<in> set (neighbours adj x)" "\<not> (av \<and> blk)" for y w blk
    proof -
      from fr that have "y \<in> visited \<or> (\<exists>p. (dx + w, y, p) \<in> set pq)" by blast
      then show ?thesis
      proof
        assume "y \<in> visited" then show ?thesis by simp
      next
        assume "\<exists>p. (dx + w, y, p) \<in> set pq"
        then obtain p where p: "(dx + w, y, p) \<in> set pq" by blast
        show ?thesis
        proof (cases "(dx + w, y, p) = e")
          case True
          with v show ?thesis by auto
        next
          case False
          with p have "(dx + w, y, p) \<in> set (remove1 e pq)" by simp
          then show ?thesis by blast
        qed
      qed
    qed
    with dx show "\<exists>dx. is_dist adj av start x dx
          \<and> (\<forall>y w blk. (y, w, blk) \<in> set (neighbours adj x) \<and> \<not> (av \<and> blk) \<longrightarrow>
                 y \<in> visited \<or> (\<exists>p. (dx + w, y, p) \<in> set (remove1 e pq)))"
      by blast
  qed
  show "start \<in> visited \<or> (\<exists>p. (0, start, p) \<in> set (remove1 e pq))"
  proof -
    from inv have "start \<in> visited \<or> (\<exists>p. (0, start, p) \<in> set pq)"
      unfolding loop_inv_def by blast
    then show ?thesis
    proof
      assume "start \<in> visited" then show ?thesis by simp
    next
      assume "\<exists>p. (0, start, p) \<in> set pq"
      then obtain p where p: "(0, start, p) \<in> set pq" by blast
      show ?thesis
      proof (cases "(0, start, p) = e")
        case True with v show ?thesis by auto
      next
        case False
        with p have "(0, start, p) \<in> set (remove1 e pq)" by simp
        then show ?thesis by blast
      qed
    qed
  qed
  show "target \<notin> visited" using inv unfolding loop_inv_def by blast
qed


lemma inv_pop_new:
  assumes inv: "loop_inv adj av start target pq visited"
    and e: "e = (d, v, p)" "e \<in> set pq"
    and dist: "is_dist adj av start v d"
    and nt: "v \<noteq> target"
  shows "loop_inv adj av start target
           (remove1 e pq @ pushes adj av (insert v visited) e) (insert v visited)"
  unfolding loop_inv_def
proof (intro conjI)
  let ?pq = "remove1 e pq @ pushes adj av (insert v visited) e"
  from inv e have wp: "walk adj av start p d" "last p = v"
    unfolding loop_inv_def by blast+
  show "\<forall>d v p. (d, v, p) \<in> set ?pq \<longrightarrow> walk adj av start p d \<and> last p = v"
  proof -
    have "walk adj av start p' d' \<and> last p' = y" if "(d', y, p') \<in> set ?pq" for d' y p'
    proof (cases "(d', y, p') \<in> set (remove1 e pq)")
      case True
      then have "(d', y, p') \<in> set pq" using set_remove1_subset[of e pq] by blast
      with inv show ?thesis unfolding loop_inv_def by blast
    next
      case False
      with that have "(d', y, p') \<in> set (pushes adj av (insert v visited) (d, v, p))"
        by (simp add: e(1))
      then obtain w blk where "(y, w, blk) \<in> set (neighbours adj v)" "\<not> (av \<and> blk)"
        "d' = d + w" "p' = p @ [y]" unfolding in_pushes by blast
      with wp walk_step[of adj av start p d y w blk] show ?thesis by simp
    qed
    then show ?thesis by blast
  qed
  have keep: "\<And>x. x \<in> set pq \<Longrightarrow> x \<noteq> e \<Longrightarrow> x \<in> set ?pq" by simp
  show "\<forall>x \<in> insert v visited. \<exists>dx. is_dist adj av start x dx
          \<and> (\<forall>y w blk. (y, w, blk) \<in> set (neighbours adj x) \<and> \<not> (av \<and> blk) \<longrightarrow>
                 y \<in> insert v visited \<or> (\<exists>p. (dx + w, y, p) \<in> set ?pq))"
  proof
    fix x assume x: "x \<in> insert v visited"
    show "\<exists>dx. is_dist adj av start x dx
          \<and> (\<forall>y w blk. (y, w, blk) \<in> set (neighbours adj x) \<and> \<not> (av \<and> blk) \<longrightarrow>
                 y \<in> insert v visited \<or> (\<exists>p. (dx + w, y, p) \<in> set ?pq))"
    proof (cases "x = v")
      case True
      have "y \<in> insert v visited \<or> (\<exists>p'. (d + w, y, p') \<in> set ?pq)"
        if "(y, w, blk) \<in> set (neighbours adj v)" "\<not> (av \<and> blk)" for y w blk
      proof (cases "y \<in> insert v visited")
        case True then show ?thesis by simp
      next
        case False
        with that have "(d + w, y, p @ [y]) \<in> set (pushes adj av (insert v visited) (d, v, p))"
          unfolding in_pushes by blast
        then show ?thesis by (auto simp: e(1))
      qed
      with dist True show ?thesis by blast
    next
      case False
      with x have xv: "x \<in> visited" by simp
      with inv obtain dx where dx: "is_dist adj av start x dx"
        and fr: "\<forall>y w blk. (y, w, blk) \<in> set (neighbours adj x) \<and> \<not> (av \<and> blk) \<longrightarrow>
                 y \<in> visited \<or> (\<exists>p. (dx + w, y, p) \<in> set pq)"
        unfolding loop_inv_def by blast
      have "y \<in> insert v visited \<or> (\<exists>p'. (dx + w, y, p') \<in> set ?pq)"
        if "(y, w, blk) \<in> set (neighbours adj x)" "\<not> (av \<and> blk)" for y w blk
      proof -
        from fr that have "y \<in> visited \<or> (\<exists>p. (dx + w, y, p) \<in> set pq)" by blast
        then show ?thesis
        proof
          assume "y \<in> visited" then show ?thesis by simp
        next
          assume "\<exists>p. (dx + w, y, p) \<in> set pq"
          then obtain p' where p': "(dx + w, y, p') \<in> set pq" by blast
          show ?thesis
          proof (cases "(dx + w, y, p') = e")
            case True
            then have "y = v" by (simp add: e(1))
            then show ?thesis by simp
          next
            case False
            from keep[OF p' False] show ?thesis by blast
          qed
        qed
      qed
      with dx show ?thesis by blast
    qed
  qed
  show "start \<in> insert v visited \<or> (\<exists>p. (0, start, p) \<in> set ?pq)"
  proof -
    from inv have "start \<in> visited \<or> (\<exists>p. (0, start, p) \<in> set pq)"
      unfolding loop_inv_def by blast
    then show ?thesis
    proof
      assume "start \<in> visited" then show ?thesis by simp
    next
      assume "\<exists>p. (0, start, p) \<in> set pq"
      then obtain p' where p': "(0, start, p') \<in> set pq" by blast
      show ?thesis
      proof (cases "(0, start, p') = e")
        case True
        then have "start = v" by (simp add: e(1))
        then show ?thesis by simp
      next
        case False
        from keep[OF p' False] show ?thesis by blast
      qed
    qed
  qed
  show "target \<notin> insert v visited" using inv nt unfolding loop_inv_def by auto
qed


lemma inv_empty:
  assumes inv: "loop_inv adj av start target [] visited"
  shows "walk adj av start p d \<Longrightarrow> last p \<in> visited"
proof (induction rule: walk.induct)
  case walk_start
  from inv show ?case by (simp add: loop_inv_def)
next
  case (walk_step p d nb w blk)
  have c: "y \<in> visited"
    if "x \<in> visited" "(y, w, blk) \<in> set (neighbours adj x)" "\<not> (av \<and> blk)" for x y w blk
  proof -
    from inv that(1) obtain dx where
      "\<forall>y w blk. (y, w, blk) \<in> set (neighbours adj x) \<and> \<not> (av \<and> blk) \<longrightarrow>
          y \<in> visited \<or> (\<exists>p. (dx + w, y, p) \<in> set ([] :: pq_entry list))"
      unfolding loop_inv_def by (elim conjE) (drule (1) bspec, blast)
    with that(2,3) have "y \<in> visited \<or> (\<exists>p. (dx + w, y, p) \<in> set ([] :: pq_entry list))"
      by blast
    then show ?thesis by simp
  qed
  from c[OF walk_step.IH walk_step.hyps(2,3)] show ?case by simp
qed

lemma inv_target: "loop_inv adj av start target pq visited \<Longrightarrow> target \<notin> visited"
  by (simp add: loop_inv_def)

lemma loop_unfold_visited:
  assumes "pq \<noteq> []" "fst (snd (Min (set pq))) \<in> visited"
  shows "dijkstra_loop adj target av pq visited
           = dijkstra_loop adj target av (remove1 (Min (set pq)) pq) visited"
  using assms by (subst dijkstra_loop.simps) (simp add: Let_def)

lemma loop_unfold_target:
  assumes "pq \<noteq> []" "fst (snd (Min (set pq))) \<notin> visited" "fst (snd (Min (set pq))) = target"
  shows "dijkstra_loop adj target av pq visited = Some (snd (snd (Min (set pq))))"
  using assms by (subst dijkstra_loop.simps) (simp add: Let_def)

lemma loop_unfold_new:
  assumes "pq \<noteq> []" "fst (snd (Min (set pq))) \<notin> visited" "fst (snd (Min (set pq))) \<noteq> target"
  shows "dijkstra_loop adj target av pq visited
           = dijkstra_loop adj target av
               (remove1 (Min (set pq)) pq
                  @ pushes adj av (insert (fst (snd (Min (set pq)))) visited) (Min (set pq)))
               (insert (fst (snd (Min (set pq)))) visited)"
  using assms by (subst dijkstra_loop.simps) (simp add: Let_def)

lemma loop_unfold_empty: "dijkstra_loop adj target av [] visited = None"
  by (subst dijkstra_loop.simps) simp

lemma dijkstra_loop_correct:
  "nonneg_weights adj \<Longrightarrow> loop_inv adj av start target pq visited \<Longrightarrow>
     search_ok adj av start target (dijkstra_loop adj target av pq visited)"
proof (induction adj target av pq visited rule: dijkstra_loop.induct)
  case (1 adj target av pq visited)
  note nn = "1.prems"(1)
  note inv = "1.prems"(2)
  show ?case
  proof (cases "pq = []")
    case True
    have "last p \<noteq> target" if "walk adj av start p d" for p d
      using inv_empty[OF inv[unfolded True] that] inv_target[OF inv] by blast
    then show ?thesis unfolding True loop_unfold_empty search_ok_def by simp
  next
    case False
    define e where "e = Min (set pq)"
    define node where "node = fst (snd e)"
    have em: "e \<in> set pq" unfolding e_def using Min_entry(1)[OF False] .
    show ?thesis
    proof (cases "node \<in> visited")
      case True
      have i: "loop_inv adj av start target (remove1 e pq) visited"
        by (rule inv_pop_visited[OF inv]) (use True node_def in simp)
      have "search_ok adj av start target (dijkstra_loop adj target av (remove1 e pq) visited)"
        by (rule "1.IH"(1)[OF False e_def refl node_def True nn i])
      moreover have "dijkstra_loop adj target av pq visited
                       = dijkstra_loop adj target av (remove1 e pq) visited"
        unfolding e_def by (rule loop_unfold_visited[OF False]) (use True node_def e_def in simp)
      ultimately show ?thesis by simp
    next
      case nv: False
      have nv': "fst (snd (Min (set pq))) \<notin> visited" using nv node_def e_def by simp
      note pd = popped_dist[OF nn inv False nv']
      show ?thesis
      proof (cases "node = target")
        case True
        have t: "fst (snd (Min (set pq))) = target" using True node_def e_def by simp
        have "search_ok adj av start target (Some (snd (snd (Min (set pq)))))"
          using pd unfolding search_ok_def is_dist_def t by auto
        then show ?thesis unfolding loop_unfold_target[OF False nv' t] .
      next
        case nt: False
        have nt': "fst (snd (Min (set pq))) \<noteq> target" using nt node_def e_def by simp
        have ee: "e = (fst e, node, snd (snd e))" by (simp add: node_def)
        have d: "is_dist adj av start node (fst e)" using pd(1) by (simp add: node_def e_def)
        have i: "loop_inv adj av start target
                   (remove1 e pq @ pushes adj av (insert node visited) e) (insert node visited)"
          by (rule inv_pop_new[OF inv ee em d nt])
        have "search_ok adj av start target
                (dijkstra_loop adj target av
                   (remove1 e pq @ pushes adj av (insert node visited) e) (insert node visited))"
          by (rule "1.IH"(2)[OF False e_def refl node_def nv nt nn i])
        moreover have "dijkstra_loop adj target av pq visited
                = dijkstra_loop adj target av
                   (remove1 e pq @ pushes adj av (insert node visited) e) (insert node visited)"
          unfolding e_def node_def by (rule loop_unfold_new[OF False nv' nt'])
        ultimately show ?thesis by simp
      qed
    qed
  qed
qed

lemma find_path_dijkstra_correct:
  assumes nn: "nonneg_weights adj"
  shows "search_ok adj av start target (find_path_dijkstra adj start target av)"
proof (cases "start = target")
  case True
  have "walk adj av start [start] 0" by (rule walk_start)
  moreover have "0 \<le> d'" if "walk adj av start p' d'" for p' d'
    using walk_nonneg[OF nn that] .
  ultimately have "search_ok adj av start target (Some [start])"
    unfolding search_ok_def using True by auto
  then show ?thesis using True by (simp add: find_path_dijkstra_def)
next
  case False
  have "loop_inv adj av start target [(0, start, [start])] {}"
    using False by (simp add: loop_inv_def walk_start)
  from dijkstra_loop_correct[OF nn this] False show ?thesis
    by (simp add: find_path_dijkstra_def)
qed

subsection \<open>From the adjacency structure to the edge list\<close>

lemma map_of_keyed:
  "map_of (map (\<lambda>(k, l). (k, g k l)) adj) u = map_option (g u) (map_of adj u)"
  by (induction adj) auto

lemma adj_append_neighbours:
  assumes "adj_append k x adj = Inr adj'"
  shows "neighbours adj' u = (if u = k then neighbours adj u @ [x] else neighbours adj u)"
proof -
  from assms have k: "k \<in> fst ` set adj"
    and a: "adj' = map (\<lambda>(k', l). (k', if k' = k then l @ [x] else l)) adj"
    by (auto simp: adj_append_def split: if_splits intro!: map_cong)
  from k obtain l where "map_of adj k = Some l"
    by (cases "map_of adj k") (auto simp: map_of_eq_None_iff)
  then show ?thesis
    unfolding a neighbours_def map_of_keyed
    by (cases "map_of adj u") auto
qed

lemma add_edges_neighbours:
  "add_edges es adj0 = Inr adj \<Longrightarrow>
     set (neighbours adj u) = set (neighbours adj0 u)
        \<union> {(nb, distance e, blocked e) | e nb. e \<in> set es \<and> connects e u nb}"
proof (induction es arbitrary: adj0)
  case Nil
  then show ?case by simp
next
  case (Cons e es)
  from Cons.prems obtain adj1 adj2 where
    a1: "adj_append (e_from e) (e_to e, distance e, blocked e) adj0 = Inr adj1" and
    a2: "adj_append (e_to e) (e_from e, distance e, blocked e) adj1 = Inr adj2" and
    r: "add_edges es adj2 = Inr adj"
    by (auto split: sum.splits)
  have "set (neighbours adj2 u) = set (neighbours adj0 u)
          \<union> {(nb, distance e, blocked e) | nb. connects e u nb}"
    unfolding adj_append_neighbours[OF a2] adj_append_neighbours[OF a1]
    by (auto simp: connects_def)
  with Cons.IH[OF r] show ?case by auto
qed

lemma empty_adjacency: "neighbours (map (\<lambda>i. (i, [])) ks) u = []"
  by (induction ks) (simp_all add: neighbours_def)

lemma build_neighbours:
  assumes "build_adjacency_list ns es = Inr adj"
  shows "(nb, w, blk) \<in> set (neighbours adj u)
           \<longleftrightarrow> (\<exists>e \<in> set es. connects e u nb \<and> distance e = w \<and> blocked e = blk)"
proof -
  have "neighbours (map (\<lambda>i. (i, [])) (remdups (map node_id ns))) u = []"
    by (rule empty_adjacency)
  with add_edges_neighbours[OF assms[unfolded build_adjacency_list_def], of u]
  show ?thesis by auto
qed

lemma walk_route:
  assumes "build_adjacency_list ns es = Inr adj"
  shows "walk adj av start p d \<longleftrightarrow> route_in es av start p d"
proof
  assume "walk adj av start p d"
  then show "route_in es av start p d"
  proof (induction rule: walk.induct)
    case walk_start
    show ?case by (rule route_start)
  next
    case (walk_step p d nb w blk)
    from walk_step.hyps(2) obtain e where
      "e \<in> set es" "connects e (last p) nb" "distance e = w" "blocked e = blk"
      unfolding build_neighbours[OF assms] by blast
    with route_step[OF walk_step.IH, of e nb] walk_step.hyps(3) show ?case by simp
  qed
next
  assume "route_in es av start p d"
  then show "walk adj av start p d"
  proof (induction rule: route_in.induct)
    case route_start
    show ?case by (rule walk_start)
  next
    case (route_step p d e v)
    have "(v, distance e, blocked e) \<in> set (neighbours adj (last p))"
      unfolding build_neighbours[OF assms] using route_step.hyps(2,3) by blast
    from walk_step[OF route_step.IH this route_step.hyps(4)] show ?case .
  qed
qed

lemma build_nonneg:
  assumes "build_adjacency_list ns es = Inr adj" "\<forall>e \<in> set es. 0 \<le> distance e"
  shows "nonneg_weights adj"
  unfolding nonneg_weights_def build_neighbours[OF assms(1)] using assms(2) by blast

lemma walk_nonempty: "walk adj av start p d \<Longrightarrow> p \<noteq> []"
  by (induction rule: walk.induct) simp_all

lemma find_path_route:
  assumes b: "build_adjacency_list ns es = Inr adj" and nn: "\<forall>e \<in> set es. 0 \<le> distance e"
  shows "find_path_dijkstra adj start target av = Some p
           \<Longrightarrow> shortest_route es av start target p \<and> p \<noteq> []"
    and "find_path_dijkstra adj start target av = None \<Longrightarrow> no_route es av start target"
proof -
  note ok = find_path_dijkstra_correct[OF build_nonneg[OF b nn], of av start target]
  show "shortest_route es av start target p \<and> p \<noteq> []"
    if "find_path_dijkstra adj start target av = Some p"
    using ok walk_nonempty[of adj av start p]
    unfolding that search_ok_def shortest_route_def walk_route[OF b] by auto
  show "no_route es av start target"
    if "find_path_dijkstra adj start target av = None"
    using ok unfolding that search_ok_def no_route_def walk_route[OF b] by simp
qed

lemma plan_route_cases:
  assumes b: "build_adjacency_list ns es = Inr adj" and nn: "\<forall>e \<in> set es. 0 \<le> distance e"
  shows "(\<exists>r. plan_route ns adj cc c = [r] \<and> target_id r = c_id c
             \<and> ((status r = ''clear'' \<and> shortest_route es True cc (c_id c) (path r))
                \<or> (status r = ''blocked_route'' \<and> no_route es True cc (c_id c)
                     \<and> shortest_route es False cc (c_id c) (path r))))
         \<or> (plan_route ns adj cc c = [] \<and> no_route es True cc (c_id c)
              \<and> no_route es False cc (c_id c))"
proof (cases "find_path_dijkstra adj cc (c_id c) True")
  case (Some p)
  from find_path_route(1)[OF b nn Some] show ?thesis
    by (simp add: plan_route_def Some)
next
  case None
  note n1 = find_path_route(2)[OF b nn None]
  show ?thesis
  proof (cases "find_path_dijkstra adj cc (c_id c) False")
    case (Some p)
    from find_path_route(1)[OF b nn Some] n1 show ?thesis
      by (simp add: plan_route_def None Some)
  next
    case N2: None
    from find_path_route(2)[OF b nn N2] n1 show ?thesis
      by (simp add: plan_route_def None N2)
  qed
qed

subsection \<open>The snapshots of the environment\<close>

lemma map_enumerate:
  assumes "\<And>i x. g (f (i, x)) = g x"
  shows "map g (map f (enumerate_list xs)) = map g xs"
proof -
  have "\<And>p. g (f p) = g (snd p)"
  proof -
    fix p :: "nat \<times> 'a"
    show "g (f p) = g (snd p)" using assms[of "fst p" "snd p"] by simp
  qed
  then have "map g (map f (enumerate_list xs)) = map (\<lambda>p. g (snd p)) (enumerate_list xs)"
    by simp
  also have "\<dots> = map g (map snd (enumerate_list xs))" by (simp add: o_def)
  also have "map snd (enumerate_list xs) = xs" by (simp add: enumerate_list_def)
  finally show ?thesis .
qed

lemma shape_unblock_all: "road_shape (unblock_all es) = road_shape es"
  by (simp add: road_shape_def unblock_all_def o_def)

lemma shape_block: "road_shape (block_edges rnd level affected es) = road_shape es"
  unfolding road_shape_def block_edges_def by (rule map_enumerate) simp

lemma shape_unblock: "road_shape (unblock_edges idxs es) = road_shape es"
  unfolding road_shape_def unblock_edges_def by (rule map_enumerate) simp

lemma roads_trigger: "roads_inv s \<Longrightarrow> roads_inv (trigger_disaster rnd sc intensity res_arg s)"
  by (simp add: roads_inv_def trigger_disaster_def Let_def shape_block)

lemma roads_enforce: "edges (enforce_non_negative s) = edges s"
  by (simp add: enforce_non_negative_def)

lemma roads_response: "update_response rnd s = Inr s' \<Longrightarrow> edges s' = edges s"
  by (auto simp: update_response_def Let_def split: if_splits sum.splits)

lemma roads_rebuild: "road_shape (edges (update_rebuild rnd s)) = road_shape (edges s)"
  by (simp add: update_rebuild_def Let_def shape_unblock shape_unblock_all)

lemma roads_recovered: "roads_inv s \<Longrightarrow> roads_inv (update_recovered rnd s)"
  using roads_trigger[of s] by (simp add: update_recovered_def roads_inv_def)

lemma roads_update:
  assumes "roads_inv s" "update rnd s = Inr s'"
  shows "roads_inv s'"
proof (cases "phase s")
  case Idle
  then show ?thesis using assms by (simp add: update_def)
next
  case Response
  let ?s1 = "s\<lparr>time_step := time_step s + 1,
                 env_stats := (env_stats s)\<lparr>total_time_steps := total_time_steps (env_stats s) + 1\<rparr>\<rparr>"
  from assms(2) Response obtain s2 where s2: "update_response rnd ?s1 = Inr s2" "s' = enforce_non_negative s2"
    by (auto simp: update_def Let_def split: sum.splits)
  have "edges s' = edges s"
    using roads_response[OF s2(1)] s2(2) by (simp add: roads_enforce)
  then show ?thesis using assms(1) by (simp add: roads_inv_def)
next
  case Rebuild
  let ?s1 = "s\<lparr>time_step := time_step s + 1,
                 env_stats := (env_stats s)\<lparr>total_time_steps := total_time_steps (env_stats s) + 1\<rparr>\<rparr>"
  from assms(2) Rebuild have s2: "s' = enforce_non_negative (update_rebuild rnd ?s1)"
    by (auto simp: update_def Let_def split: sum.splits)
  have "road_shape (edges s') = road_shape (edges ?s1)"
    unfolding s2 by (simp only: roads_enforce roads_rebuild)
  then show ?thesis using assms(1) by (simp add: roads_inv_def)
next
  case Recovered
  let ?s1 = "s\<lparr>time_step := time_step s + 1,
                 env_stats := (env_stats s)\<lparr>total_time_steps := total_time_steps (env_stats s) + 1\<rparr>\<rparr>"
  from assms(2) Recovered have s2: "s' = enforce_non_negative (update_recovered rnd ?s1)"
    by (auto simp: update_def Let_def split: sum.splits)
  have "roads_inv ?s1" using assms(1) by (simp add: roads_inv_def)
  then have "roads_inv (update_recovered rnd ?s1)" by (rule roads_recovered)
  then show ?thesis unfolding s2 by (simp add: roads_inv_def roads_enforce)
qed

lemma roads_use: "edges (snd (use_resource name amount s)) = edges s"
  by (simp add: use_resource_def Let_def split: option.splits)

lemma roads_save: "edges (snd (save_victims count s)) = edges s"
  by (simp add: save_victims_def Let_def)

lemma roads_reset: "roads_inv s \<Longrightarrow> roads_inv (reset s)"
  by (simp add: roads_inv_def reset_def shape_unblock_all)

lemma roads_init: "roads_inv init_env"
  by (simp add: roads_inv_def init_env_def)

lemma roads_consume: "edges (consume_alloc alloc s) = edges s"
  by (induction alloc s rule: consume_alloc.induct) (auto simp: roads_use)

lemma roads_utility_rescue: "edges (snd (utility_rescue pl s)) = edges s"
proof -
  let ?c = "consume_alloc (payload_allocation pl) s"
  have "\<And>n a s2. save_victims n ?c = (a, s2) \<Longrightarrow> edges s2 = edges s"
    using roads_save[of _ ?c] roads_consume[of "payload_allocation pl" s] by (metis snd_conv)
  then show ?thesis using roads_consume[of "payload_allocation pl" s]
    by (auto simp: utility_rescue_def Let_def split: prod.splits)
qed

lemma roads_utility_execute: "edges (fst (utility_execute clk ds sb)) = edges (fst sb)"
proof (induction clk ds sb rule: utility_execute.induct)
  case (1 clk sb) then show ?case by simp
next
  case (2 clk d ds s b)
  then show ?case using roads_utility_rescue[of "i_payload d" s]
    by (auto simp: Let_def split: prod.splits if_splits)
qed

lemma roads_utility: "edges (fst (utility_act clk s b st)) = edges s"
  using roads_utility_execute[of clk "fst (utility_decide s st)" "(s, b)"]
  by (auto simp: utility_act_def Let_def split: prod.splits)

lemma roads_rebuild_request: "edges (fst (rebuild_request clk d s b)) = edges s"
proof -
  have "\<And>n a x1 x2. use_resource n a s = (x1, x2) \<Longrightarrow> edges x2 = edges s"
    using roads_use by (metis snd_conv)
  then show ?thesis
    by (auto simp: rebuild_request_def repair_blocked_def Let_def split: prod.splits)
qed

lemma roads_rebuild_execute: "edges (fst (rebuild_execute clk ds sb)) = edges (fst sb)"
proof (induction clk ds sb rule: rebuild_execute.induct)
  case (1 clk sb) then show ?case by simp
next
  case (2 clk d ds s b)
  then show ?case using roads_rebuild_request[of clk d s b]
    by (auto split: if_splits)
qed

lemma roads_rebuild_act: "edges (fst (rebuild_act clk s b)) = edges s"
  using roads_rebuild_execute[of clk "rebuild_decide s" "(s, b)"]
  by (simp add: rebuild_act_def)

lemma reachable_roads: "reachable s \<Longrightarrow> roads_inv s"
proof (induction rule: reachable.induct)
  case (r_update s urnd s')
  then show ?case using roads_update by blast
qed (simp_all add: roads_init roads_trigger roads_reset,
     simp_all add: roads_inv_def roads_use roads_save roads_utility roads_rebuild_act)

lemma env_edges_shape:
  "list_all (\<lambda>(a, b, d). a < 27 \<and> b < 27 \<and> 0 \<le> d) (road_shape env_edges)"
  by (simp add: road_shape_def env_edges_def mk_edge_def)

lemma roads_bounds:
  assumes "roads_inv s" and "e \<in> set (edges s)"
  shows "e_from e < 27 \<and> e_to e < 27 \<and> 0 \<le> distance e"
proof -
  from assms(2) have "(e_from e, e_to e, distance e) \<in> set (road_shape (edges s))"
    unfolding road_shape_def set_map by (rule imageI)
  then have "(e_from e, e_to e, distance e) \<in> set (road_shape env_edges)"
    using assms(1) by (simp add: roads_inv_def)
  with env_edges_shape show ?thesis
    unfolding list_all_iff by fastforce
qed

lemma adj_append_keys:
  assumes "k \<in> fst ` set adj"
  shows "\<exists>adj'. adj_append k x adj = Inr adj' \<and> fst ` set adj' = fst ` set adj"
proof -
  have "fst ` set (map (\<lambda>(k', l). if k' = k then (k', l @ [x]) else (k', l)) adj) = fst ` set adj"
    by (induction adj) auto
  with assms show ?thesis by (simp add: adj_append_def)
qed

lemma add_edges_keys:
  assumes "\<forall>e \<in> set es. e_from e \<in> fst ` set adj \<and> e_to e \<in> fst ` set adj"
  shows "\<exists>adj'. add_edges es adj = Inr adj'"
  using assms
proof (induction es arbitrary: adj)
  case Nil
  show ?case by simp
next
  case (Cons e es)
  from Cons.prems have f: "e_from e \<in> fst ` set adj" and t: "e_to e \<in> fst ` set adj" by simp_all
  from adj_append_keys[OF f] obtain adj1 where
    a1: "adj_append (e_from e) (e_to e, distance e, blocked e) adj = Inr adj1"
    and k1: "fst ` set adj1 = fst ` set adj" by blast
  from t k1 have "e_to e \<in> fst ` set adj1" by simp
  from adj_append_keys[OF this] obtain adj2 where
    a2: "adj_append (e_to e) (e_from e, distance e, blocked e) adj1 = Inr adj2"
    and k2: "fst ` set adj2 = fst ` set adj1" by blast
  have "\<forall>e \<in> set es. e_from e \<in> fst ` set adj2 \<and> e_to e \<in> fst ` set adj2"
    using Cons.prems k1 k2 by simp
  from Cons.IH[OF this] show ?case by (simp add: a1 a2)
qed

lemma env_node_keys: "set (map node_id env_nodes) = {0..<27}"
proof -
  have "map node_id env_nodes = [0,1,2,3,4,5,6,7,8,9,10,11,12,13,14,15,16,17,18,19,20,21,22,23,24,25,26]"
    by (simp add: env_nodes_def mk_node_def)
  also have "\<dots> = [0..<27]" by (simp add: upt_conv_Cons)
  finally show ?thesis by simp
qed

lemma roads_build:
  assumes "roads_inv s"
  shows "\<exists>adj. build_adjacency_list env_nodes (edges s) = Inr adj"
proof -
  have k: "fst ` set (map (\<lambda>i. (i, [] :: (nat \<times> real \<times> bool) list)) (remdups (map node_id env_nodes))) = {0..<27}"
    using env_node_keys by (simp add: image_image)
  have "\<forall>e \<in> set (edges s). e_from e \<in> {0..<27} \<and> e_to e \<in> {0..<27}"
    using roads_bounds[OF assms] by simp
  then show ?thesis
    unfolding build_adjacency_list_def using add_edges_keys k by metis
qed

lemma reachable_snapshot:
  assumes "reachable s"
  shows "(\<forall>e \<in> set (edges s). 0 \<le> distance e)
       \<and> (\<exists>pl. plan_rescue_routes env_nodes (edges s) affected sc = Inr pl)"
proof -
  from assms have r: "roads_inv s" by (rule reachable_roads)
  from roads_build[OF r] obtain adj where "build_adjacency_list env_nodes (edges s) = Inr adj" ..
  then have "\<exists>pl. plan_rescue_routes env_nodes (edges s) affected sc = Inr pl"
    by (simp add: plan_rescue_routes_def Let_def)
  with roads_bounds[OF r] show ?thesis by simp
qed

subsection \<open>The plan\<close>

text \<open>
  C4. For a snapshot of nodes and edges with non-negative distances on which the plan is
  built, every route of the plan leads from the command centre 26 to its target and is
  either labelled \<open>clear\<close> and a shortest route by summed edge distance among those that
  avoid blocked edges, or labelled \<open>blocked_route\<close>, in which case no route avoiding
  blocked edges exists and the path is a shortest route over all edges. Every critical
  target has a route unless it cannot be reached at all. The snapshot of every reachable
  environment is of this kind: its distances are not negative and the plan is built on it.
\<close>

theorem plan_routes_shortest:
  assumes "\<forall>e \<in> set es. 0 \<le> distance e"
    and "plan_rescue_routes ns es affected sc = Inr pl"
  shows "(\<forall>r \<in> set (routes pl).
            (status r = ''clear'' \<and> shortest_route es True 26 (target_id r) (path r))
          \<or> (status r = ''blocked_route'' \<and> no_route es True 26 (target_id r)
               \<and> shortest_route es False 26 (target_id r) (path r)))
       \<and> (\<forall>c \<in> set (critical_nodes pl).
            c_id c \<in> target_id ` set (routes pl) \<or> no_route es False 26 (c_id c))
       \<and> critical_nodes pl = find_critical_nodes ns affected sc
       \<and> command_center pl = 26
       \<and> (reachable s \<longrightarrow>
            (\<forall>e \<in> set (edges s). 0 \<le> distance e)
            \<and> (\<exists>pl'. plan_rescue_routes env_nodes (edges s) aff scn = Inr pl'))"
proof -
  from assms(2) obtain adj where b: "build_adjacency_list ns es = Inr adj"
    and pl: "pl = \<lparr>routes = concat (map (plan_route ns adj 26) (find_critical_nodes ns affected sc)),
                  critical_nodes = find_critical_nodes ns affected sc, command_center = 26,
                  total_targets = int (length (concat (map (plan_route ns adj 26)
                                     (find_critical_nodes ns affected sc))))\<rparr>"
    by (auto simp: plan_rescue_routes_def Let_def split: sum.splits)
  note pc = plan_route_cases[OF b assms(1), where cc = 26]
  have r: "(status r = ''clear'' \<and> shortest_route es True 26 (target_id r) (path r))
          \<or> (status r = ''blocked_route'' \<and> no_route es True 26 (target_id r)
               \<and> shortest_route es False 26 (target_id r) (path r))"
    if "r \<in> set (routes pl)" for r
  proof -
    from that obtain c where "r \<in> set (plan_route ns adj 26 c)"
      unfolding pl by auto
    with pc[of c] show ?thesis by auto
  qed
  have c: "c_id c \<in> target_id ` set (routes pl) \<or> no_route es False 26 (c_id c)"
    if "c \<in> set (critical_nodes pl)" for c
  proof -
    from pc[of c] show ?thesis
    proof
      assume "\<exists>r. plan_route ns adj 26 c = [r] \<and> target_id r = c_id c
             \<and> ((status r = ''clear'' \<and> shortest_route es True 26 (c_id c) (path r))
                \<or> (status r = ''blocked_route'' \<and> no_route es True 26 (c_id c)
                     \<and> shortest_route es False 26 (c_id c) (path r)))"
      then obtain r where "plan_route ns adj 26 c = [r]" "target_id r = c_id c" by blast
      with that have "r \<in> set (routes pl)" "target_id r = c_id c"
        unfolding pl by force+
      then show ?thesis by force
    next
      assume "plan_route ns adj 26 c = [] \<and> no_route es True 26 (c_id c)
              \<and> no_route es False 26 (c_id c)"
      then show ?thesis by simp
    qed
  qed
  have "reachable s \<longrightarrow>
          (\<forall>e \<in> set (edges s). 0 \<le> distance e)
          \<and> (\<exists>pl'. plan_rescue_routes env_nodes (edges s) aff scn = Inr pl')"
    using reachable_snapshot[of s aff scn] by blast
  with r c show ?thesis unfolding pl by simp
qed

lemma plan_built:
  "build_adjacency_list ns es = Inr adj \<Longrightarrow> \<exists>pl. plan_rescue_routes ns es affected sc = Inr pl"
  by (simp add: plan_rescue_routes_def Let_def)

lemma shaken_adjacency:
  "(case build_adjacency_list env_nodes (edges shaken) of Inl _ \<Rightarrow> False | Inr _ \<Rightarrow> True)"
  unfolding shaken_def shaky_def by code_simp

lemma shaken_plan_eq:
  "plan_rescue_routes env_nodes (edges shaken) (affected_nodes shaken) (scenario shaken)
     = Inr shaken_plan"
proof -
  from shaken_adjacency obtain adj where "build_adjacency_list env_nodes (edges shaken) = Inr adj"
    by (cases "build_adjacency_list env_nodes (edges shaken)") simp_all
  from plan_built[OF this] obtain pl where
    "plan_rescue_routes env_nodes (edges shaken) (affected_nodes shaken) (scenario shaken) = Inr pl"
    by blast
  then show ?thesis by (simp add: shaken_plan_def)
qed

lemma shaken_distances: "list_all (\<lambda>e. 0 \<le> distance e) (edges shaken)"
  unfolding shaken_def shaky_def by code_simp

lemma shaken_summary:
  "route_summary shaken_plan
     = [(0, [26, 0], ''clear''), (1, [26, 0, 18, 1], ''clear''),
        (5, [26, 0, 1, 5], ''blocked_route''), (2, [26, 0, 2], ''clear''),
        (3, [26, 0, 3], ''clear'')]"
  unfolding shaken_plan_def route_summary_def shaken_def shaky_def by code_simp

theorem plan_routes_shortest_witness:
  "list_all (\<lambda>e. 0 \<le> distance e) (edges shaken)
   \<and> plan_rescue_routes env_nodes (edges shaken) (affected_nodes shaken) (scenario shaken)
       = Inr shaken_plan
   \<and> route_summary shaken_plan
       = [(0, [26, 0], ''clear''), (1, [26, 0, 18, 1], ''clear''),
          (5, [26, 0, 1, 5], ''blocked_route''), (2, [26, 0, 2], ''clear''),
          (3, [26, 0, 3], ''clear'')]
   \<and> shortest_route (edges shaken) True 26 1 [26, 0, 18, 1]
   \<and> no_route (edges shaken) True 26 5
   \<and> shortest_route (edges shaken) False 26 5 [26, 0, 1, 5]
   \<and> reachable shaken"
proof -
  have d: "\<forall>e \<in> set (edges shaken). 0 \<le> distance e"
    using shaken_distances by (simp add: list_all_iff)
  have re: "reachable shaken"
    unfolding shaken_def by (rule r_trigger) (rule r_init)
  note t = plan_routes_shortest [where s = shaken and aff = "[]" and scn = None,
             OF d shaken_plan_eq, THEN conjunct1]
  have "(1, [26, 0, 18, 1], ''clear'') \<in> set (route_summary shaken_plan)"
    by (simp add: shaken_summary)
  then obtain r1 where r1: "r1 \<in> set (routes shaken_plan)" "target_id r1 = 1"
    "path r1 = [26, 0, 18, 1]" "status r1 = ''clear''"
    unfolding route_summary_def by auto
  have "(5, [26, 0, 1, 5], ''blocked_route'') \<in> set (route_summary shaken_plan)"
    by (simp add: shaken_summary)
  then obtain r5 where r5: "r5 \<in> set (routes shaken_plan)" "target_id r5 = 5"
    "path r5 = [26, 0, 1, 5]" "status r5 = ''blocked_route''"
    unfolding route_summary_def by auto
  from t r1 have "shortest_route (edges shaken) True 26 1 [26, 0, 18, 1]" by fastforce
  moreover from t r5 have "no_route (edges shaken) True 26 5
      \<and> shortest_route (edges shaken) False 26 5 [26, 0, 1, 5]" by fastforce
  ultimately show ?thesis
    using shaken_distances shaken_plan_eq shaken_summary re by simp
qed

end
